theory Spec2Isabelle
  imports Complex_Main "HOL-Library.Multiset" "HOL-Library.Signed_Division"
begin

section \<open>Data model (queue.h)\<close>

text \<open>
  The item stored in the queue. The queue only copies items and compares their
  \<open>priority\<close> field; the \<open>double\<close> time stamp is never inspected by the queue, so it is
  carried as a real number. The field \<open>value\<close> of the C struct is called \<open>value_i\<close>.
\<close>

record QueueItem =
  value_i :: int
  priority :: int
  producer_id :: int
  timestamp :: real
  sequence :: int

text \<open>
  The queue structure. \<open>items\<close> is the array allocated by \<open>queue_init\<close>; the field
  \<open>size\<close> of the C struct is called \<open>size_q\<close>. The C \<open>int\<close> fields are integers: under the
  invariant established by \<open>queue_init\<close> (capacity at most 20) no intermediate value of the
  code leaves the range of a 32-bit \<open>int\<close>. The mutex and the two condition variables are
  tracked as resources (see \<open>queue_init\<close>); an operation of the queue is one critical
  section, executed atomically.
\<close>

record Queue =
  items :: "QueueItem list"
  capacity :: int
  size_q :: int
  head :: int
  tail :: int

subsection \<open>C primitives with their undefined behaviour written out\<close>

text \<open>
  A result \<open>None\<close> of the functions below is undefined behaviour of the C program:
  an array access outside the allocated block or a remainder by zero.
\<close>

definition c_mod :: "int \<Rightarrow> int \<Rightarrow> int option" where
  "c_mod a b = (if b = 0 then None else Some (a smod b))"

definition rd :: "QueueItem list \<Rightarrow> int \<Rightarrow> QueueItem option" where
  "rd xs i = (if 0 \<le> i \<and> i < int (length xs) then Some (xs ! nat i) else None)"

definition wr :: "QueueItem list \<Rightarrow> int \<Rightarrow> QueueItem \<Rightarrow> QueueItem list option" where
  "wr xs i v = (if 0 \<le> i \<and> i < int (length xs) then Some (xs[nat i := v]) else None)"

subsection \<open>Output and outcomes\<close>

text \<open>One constructor for each \<open>fprintf(stderr, ...)\<close> and \<open>printf\<close> call of queue.c,
  with the values it formats.\<close>

datatype log_msg =
    Err_invalid_capacity int
  | Err_alloc_queue
  | Err_alloc_items
  | Err_mutex_init
  | Err_cond_not_full
  | Err_cond_not_empty
  | Dbg_initialized int
  | Err_enqueue_null
  | Dbg_enqueued int int int int int
  | Err_dequeue_null
  | Dbg_dequeued int int int int int
  | Dbg_destroying
  | Dbg_released

text \<open>Where each message goes: the \<open>fprintf(stderr, ...)\<close> calls write to \<open>stderr\<close>, the
  \<open>printf\<close> calls to \<open>stdout\<close>.\<close>

datatype stream = Stdout | Stderr

fun stream_of :: "log_msg \<Rightarrow> stream" where
  "stream_of (Err_invalid_capacity c) = Stderr"
| "stream_of Err_alloc_queue = Stderr"
| "stream_of Err_alloc_items = Stderr"
| "stream_of Err_mutex_init = Stderr"
| "stream_of Err_cond_not_full = Stderr"
| "stream_of Err_cond_not_empty = Stderr"
| "stream_of (Dbg_initialized c) = Stdout"
| "stream_of Err_enqueue_null = Stderr"
| "stream_of (Dbg_enqueued v p i s c) = Stdout"
| "stream_of Err_dequeue_null = Stderr"
| "stream_of (Dbg_dequeued v p i s c) = Stdout"
| "stream_of Dbg_destroying = Stdout"
| "stream_of Dbg_released = Stdout"

text \<open>An operation either returns an \<open>int\<close> or is suspended in \<open>pthread_cond_wait\<close>
  (it has released the mutex and re-evaluates its loop condition when woken).\<close>

datatype status = Returned int | Waiting

datatype resource = Queue_struct | Items_array | Mutex | Cond_not_full | Cond_not_empty

definition acquire :: "resource \<Rightarrow> resource list \<Rightarrow> resource list" where
  "acquire r live = r # live"

definition release :: "resource \<Rightarrow> resource list \<Rightarrow> resource list" where
  "release r live = remove1 r live"

text \<open>
  What the environment answers to the constructor: whether each \<open>malloc\<close> succeeds, the
  return codes of the three pthread initialisers, and the (indeterminate) contents of the
  freshly allocated array.
\<close>

record init_env =
  malloc_queue_ok :: bool
  malloc_items_ok :: bool
  mutex_init_rc :: int
  cond_not_full_rc :: int
  cond_not_empty_rc :: int
  fresh_slot :: "nat \<Rightarrow> QueueItem"

section \<open>The operations of queue.c\<close>

text \<open>
  \<open>DEBUG_MODE\<close> is a macro of config.h and \<open>timeout_flag\<close> a global variable of main.c;
  both are parameters of the operations, tested against zero as in C.
  \<open>queue_init\<close> returns the queue (or \<open>None\<close> for \<open>NULL\<close>), the resources that are live
  afterwards, and what was printed.
\<close>

definition queue_init ::
  "int \<Rightarrow> init_env \<Rightarrow> resource list \<Rightarrow> int \<Rightarrow> Queue option \<times> resource list \<times> log_msg list" where
  "queue_init DEBUG_MODE env live capacity' =
    (if capacity' \<le> 0 \<or> capacity' > 20 then (None, live, [Err_invalid_capacity capacity'])
     else if \<not> malloc_queue_ok env then (None, live, [Err_alloc_queue])
     else let live1 = acquire Queue_struct live in
       if \<not> malloc_items_ok env then (None, release Queue_struct live1, [Err_alloc_items])
       else let live2 = acquire Items_array live1;
                q = \<lparr> items = map (fresh_slot env) [0 ..< nat capacity'],
                      capacity = capacity', size_q = 0, head = 0, tail = 0 \<rparr> in
         if mutex_init_rc env \<noteq> 0
         then (None, release Queue_struct (release Items_array live2), [Err_mutex_init])
         else let live3 = acquire Mutex live2 in
           if cond_not_full_rc env \<noteq> 0
           then (None, release Queue_struct (release Items_array (release Mutex live3)),
                 [Err_cond_not_full])
           else let live4 = acquire Cond_not_full live3 in
             if cond_not_empty_rc env \<noteq> 0
             then (None,
                   release Queue_struct (release Items_array (release Mutex
                     (release Cond_not_full live4))),
                   [Err_cond_not_empty])
             else (Some q, acquire Cond_not_empty live4,
                   if DEBUG_MODE \<noteq> 0 then [Dbg_initialized capacity'] else []))"

definition queue_is_full :: "Queue \<Rightarrow> bool" where
  "queue_is_full q = (size_q q = capacity q)"

definition queue_is_empty :: "Queue \<Rightarrow> bool" where
  "queue_is_empty q = (size_q q = 0)"

definition queue_get_size :: "Queue \<Rightarrow> int \<times> log_msg list" where
  "queue_get_size q = (size_q q, [])"

text \<open>
  \<open>queue_enqueue\<close>: the status, the queue afterwards (\<open>None\<close> for a \<open>NULL\<close> pointer) and
  the output; \<open>None\<close> as a whole is undefined behaviour.
\<close>

definition queue_enqueue ::
  "int \<Rightarrow> int \<Rightarrow> Queue option \<Rightarrow> QueueItem \<Rightarrow> (status \<times> Queue option \<times> log_msg list) option" where
  "queue_enqueue DEBUG_MODE timeout_flag qp item =
    (case qp of
       None \<Rightarrow> Some (Returned (- 1), None, [Err_enqueue_null])
     | Some q \<Rightarrow>
        if queue_is_full q \<and> timeout_flag = 0 then Some (Waiting, Some q, [])
        else if timeout_flag \<noteq> 0 then Some (Returned (- 1), Some q, [])
        else
          (case wr (items q) (tail q) item of
             None \<Rightarrow> None
           | Some xs \<Rightarrow>
              (case c_mod (tail q + 1) (capacity q) of
                 None \<Rightarrow> None
               | Some t \<Rightarrow>
                  let q' = q\<lparr> items := xs, tail := t, size_q := size_q q + 1 \<rparr> in
                  Some (Returned 0, Some q',
                        if DEBUG_MODE \<noteq> 0
                        then [Dbg_enqueued (value_i item) (priority item) (producer_id item)
                                (size_q q') (capacity q')]
                        else []))))"

text \<open>The scanning loop of \<open>find_highest_priority_index\<close>, from iteration \<open>i\<close>.\<close>

function scan_loop :: "Queue \<Rightarrow> int \<Rightarrow> int \<Rightarrow> int \<Rightarrow> int \<Rightarrow> int option" where
  "scan_loop q i idx highest_idx highest_priority =
    (if i < size_q q then
       (case rd (items q) idx of
          None \<Rightarrow> None
        | Some it \<Rightarrow>
           (case c_mod (idx + 1) (capacity q) of
              None \<Rightarrow> None
            | Some idx' \<Rightarrow>
               if priority it > highest_priority
               then scan_loop q (i + 1) idx' idx (priority it)
               else scan_loop q (i + 1) idx' highest_idx highest_priority))
     else Some highest_idx)"
  by pat_completeness auto
termination
  by (relation "measure (\<lambda>(q, i, idx, hi, hp). nat (size_q q - i))") auto

declare scan_loop.simps [simp del]

definition find_highest_priority_index :: "Queue \<Rightarrow> int option" where
  "find_highest_priority_index q =
    (if queue_is_empty q then Some (- 1)
     else
       (case rd (items q) (head q) of
          None \<Rightarrow> None
        | Some h \<Rightarrow> scan_loop q 0 (head q) (head q) (priority h)))"

text \<open>The shifting loop of \<open>remove_at_index\<close>, from iteration \<open>i\<close>.\<close>

function shift_loop :: "Queue \<Rightarrow> int \<Rightarrow> int \<Rightarrow> int \<Rightarrow> Queue option" where
  "shift_loop q i shifts current =
    (if i < shifts then
       (case c_mod (current + 1) (capacity q) of
          None \<Rightarrow> None
        | Some next \<Rightarrow>
           (case rd (items q) next of
              None \<Rightarrow> None
            | Some v \<Rightarrow>
               (case wr (items q) current v of
                  None \<Rightarrow> None
                | Some xs \<Rightarrow> shift_loop (q\<lparr> items := xs \<rparr>) (i + 1) shifts next)))
     else Some q)"
  by pat_completeness auto
termination
  by (relation "measure (\<lambda>(q, i, shifts, current). nat (shifts - i))") auto

declare shift_loop.simps [simp del]

definition remove_at_index :: "Queue \<Rightarrow> int \<Rightarrow> Queue option" where
  "remove_at_index q remove_idx =
    (let shifts =
       (if remove_idx \<ge> head q
        then (if tail q > remove_idx then tail q - remove_idx - 1
              else (capacity q - remove_idx) + tail q - 1)
        else tail q - remove_idx - 1)
     in
       (case shift_loop q 0 shifts remove_idx of
          None \<Rightarrow> None
        | Some q1 \<Rightarrow>
           (case c_mod (tail q1 - 1 + capacity q1) (capacity q1) of
              None \<Rightarrow> None
            | Some t \<Rightarrow> Some (q1\<lparr> tail := t, size_q := size_q q1 - 1 \<rparr>))))"

text \<open>
  \<open>queue_dequeue\<close>: \<open>ip\<close> is the content of the cell \<open>item\<close> points to (\<open>None\<close> for a
  \<open>NULL\<close> pointer); the result holds the status, the queue, the cell and the output.
\<close>

definition queue_dequeue ::
  "int \<Rightarrow> int \<Rightarrow> Queue option \<Rightarrow> QueueItem option \<Rightarrow>
   (status \<times> Queue option \<times> QueueItem option \<times> log_msg list) option" where
  "queue_dequeue DEBUG_MODE timeout_flag qp ip =
    (case (qp, ip) of
       (None, _) \<Rightarrow> Some (Returned (- 1), qp, ip, [Err_dequeue_null])
     | (_, None) \<Rightarrow> Some (Returned (- 1), qp, ip, [Err_dequeue_null])
     | (Some q, Some old) \<Rightarrow>
        if queue_is_empty q \<and> timeout_flag = 0 then Some (Waiting, Some q, Some old, [])
        else if timeout_flag \<noteq> 0 then Some (Returned (- 1), Some q, Some old, [])
        else
          (case find_highest_priority_index q of
             None \<Rightarrow> None
           | Some remove_idx \<Rightarrow>
              if remove_idx = - 1 then Some (Returned (- 1), Some q, Some old, [])
              else
                (case rd (items q) remove_idx of
                   None \<Rightarrow> None
                 | Some it \<Rightarrow>
                    (case (if remove_idx = head q
                           then (case c_mod (head q + 1) (capacity q) of
                                   None \<Rightarrow> None
                                 | Some h \<Rightarrow> Some (q\<lparr> head := h, size_q := size_q q - 1 \<rparr>))
                           else remove_at_index q remove_idx) of
                       None \<Rightarrow> None
                     | Some q' \<Rightarrow>
                        Some (Returned 0, Some q', Some it,
                              if DEBUG_MODE \<noteq> 0
                              then [Dbg_dequeued (value_i it) (priority it) (producer_id it)
                                      (size_q q') (capacity q')]
                              else [])))))"

text \<open>\<open>queue_destroy\<close>: the live resources afterwards and the output.\<close>

definition queue_destroy ::
  "int \<Rightarrow> Queue option \<Rightarrow> resource list \<Rightarrow> resource list \<times> log_msg list" where
  "queue_destroy DEBUG_MODE qp live =
    (case qp of
       None \<Rightarrow> (live, [])
     | Some q \<Rightarrow>
        (release Queue_struct (release Items_array (release Mutex
           (release Cond_not_full (release Cond_not_empty live)))),
         (if DEBUG_MODE \<noteq> 0 then [Dbg_destroying] else []) @
         (if DEBUG_MODE \<noteq> 0 then [Dbg_released] else [])))"

section \<open>main.c: argument validation\<close>

text \<open>\<open>MAX_PRODUCERS\<close> and \<open>MAX_CONSUMERS\<close> are macros of config.h and are parameters here.
  The result is the value of \<open>valid\<close> and what was written to \<open>stderr\<close>.\<close>

datatype main_msg = Err_n_producers int | Err_n_consumers int | Err_queue_size | Err_timeout

definition validate_arguments ::
  "int \<Rightarrow> int \<Rightarrow> int \<Rightarrow> int \<Rightarrow> int \<Rightarrow> int \<Rightarrow> int \<times> main_msg list" where
  "validate_arguments MAX_PRODUCERS MAX_CONSUMERS n_producers n_consumers queue_size timeout =
    (let (valid, out) = (1, []);
         (valid, out) = (if n_producers < 1 \<or> n_producers > MAX_PRODUCERS
                         then (0, out @ [Err_n_producers MAX_PRODUCERS]) else (valid, out));
         (valid, out) = (if n_consumers < 1 \<or> n_consumers > MAX_CONSUMERS
                         then (0, out @ [Err_n_consumers MAX_CONSUMERS]) else (valid, out));
         (valid, out) = (if queue_size < 1 \<or> queue_size > 20
                         then (0, out @ [Err_queue_size]) else (valid, out));
         (valid, out) = (if timeout \<le> 0
                         then (0, out @ [Err_timeout]) else (valid, out))
     in (valid, out))"

section \<open>Sequences of operations\<close>

text \<open>
  Producers and consumers call \<open>queue_enqueue\<close> and \<open>queue_dequeue\<close> concurrently; the
  mutex serialises the critical sections, so a run of the system is a sequence of calls,
  each with the value \<open>timeout_flag\<close> has at that moment. A call that finds the queue full
  (or empty) waits without changing the queue, and its retry is a later element of the
  sequence. \<open>Deq old\<close> is a call of \<open>queue_dequeue\<close> whose destination cell holds \<open>old\<close>.
\<close>

datatype op = Enq QueueItem | Deq QueueItem

record event =
  before :: Queue
  flag :: int
  request :: op
  outcome :: status
  delivered :: "QueueItem option"
  after :: Queue

definition apply_op :: "int \<Rightarrow> Queue \<Rightarrow> int \<times> op \<Rightarrow> event option" where
  "apply_op DEBUG_MODE q x =
    (case x of
       (f, Enq it) \<Rightarrow>
         (case queue_enqueue DEBUG_MODE f (Some q) it of
            Some (st, Some q', out) \<Rightarrow>
              Some \<lparr> before = q, flag = f, request = Enq it, outcome = st,
                     delivered = None, after = q' \<rparr>
          | _ \<Rightarrow> None)
     | (f, Deq old) \<Rightarrow>
         (case queue_dequeue DEBUG_MODE f (Some q) (Some old) of
            Some (st, Some q', cell, out) \<Rightarrow>
              Some \<lparr> before = q, flag = f, request = Deq old, outcome = st,
                     delivered = cell, after = q' \<rparr>
          | _ \<Rightarrow> None))"

fun run_ops :: "int \<Rightarrow> Queue \<Rightarrow> (int \<times> op) list \<Rightarrow> event list option" where
  "run_ops DEBUG_MODE q [] = Some []"
| "run_ops DEBUG_MODE q (x # xs) =
    (case apply_op DEBUG_MODE q x of
       None \<Rightarrow> None
     | Some e \<Rightarrow>
        (case run_ops DEBUG_MODE (after e) xs of
           None \<Rightarrow> None
         | Some es \<Rightarrow> Some (e # es)))"

definition final_queue :: "Queue \<Rightarrow> event list \<Rightarrow> Queue" where
  "final_queue q es = (if es = [] then q else after (last es))"

text \<open>The item a successful enqueue handed over, and the item a successful dequeue returned.\<close>

definition inserted_of :: "event \<Rightarrow> QueueItem list" where
  "inserted_of e =
    (case request e of
       Enq it \<Rightarrow> if outcome e = Returned 0 then [it] else []
     | Deq old \<Rightarrow> [])"

definition removed_of :: "event \<Rightarrow> QueueItem list" where
  "removed_of e =
    (case request e of
       Enq it \<Rightarrow> []
     | Deq old \<Rightarrow>
        if outcome e = Returned 0
        then (case delivered e of None \<Rightarrow> [] | Some it \<Rightarrow> [it])
        else [])"

section \<open>Specification vocabulary\<close>

text \<open>The array index of the \<open>k\<close>-th occupied position, counted from the logical head.\<close>

definition slot :: "Queue \<Rightarrow> int \<Rightarrow> int" where
  "slot q k = (head q + k) mod capacity q"

text \<open>The invariant of the queue states that \<open>queue_init\<close>, \<open>queue_enqueue\<close> and
  \<open>queue_dequeue\<close> produce.\<close>

definition queue_inv :: "Queue \<Rightarrow> bool" where
  "queue_inv q = (0 < capacity q \<and> capacity q \<le> 20 \<and> length (items q) = nat (capacity q) \<and>
           0 \<le> size_q q \<and> size_q q \<le> capacity q \<and>
           0 \<le> head q \<and> head q < capacity q \<and> 0 \<le> tail q \<and> tail q < capacity q \<and>
           tail q = (head q + size_q q) mod capacity q)"

text \<open>The items owned by the queue, in arrival order (read from head to tail).\<close>

definition contents :: "Queue \<Rightarrow> QueueItem list" where
  "contents q = map (\<lambda>k. items q ! nat (slot q (int k))) [0 ..< nat (size_q q)]"

definition pri :: "Queue \<Rightarrow> int \<Rightarrow> int" where
  "pri q j = priority (items q ! nat (slot q j))"

definition enq_state :: "Queue \<Rightarrow> QueueItem \<Rightarrow> Queue" where
  "enq_state q it = q\<lparr> items := (items q)[nat (tail q) := it],
                       tail := (tail q + 1) mod capacity q, size_q := size_q q + 1 \<rparr>"

definition dbg_enq :: "int \<Rightarrow> QueueItem \<Rightarrow> Queue \<Rightarrow> log_msg list" where
  "dbg_enq d it q' = (if d \<noteq> 0 then [Dbg_enqueued (value_i it) (priority it) (producer_id it)
                                      (size_q q') (capacity q')] else [])"

definition dbg_deq :: "int \<Rightarrow> QueueItem \<Rightarrow> Queue \<Rightarrow> log_msg list" where
  "dbg_deq d it q' = (if d \<noteq> 0 then [Dbg_dequeued (value_i it) (priority it) (producer_id it)
                                      (size_q q') (capacity q')] else [])"

text \<open>Two queue states with the same geometry (they may differ in the array contents).\<close>

definition same_frame :: "Queue \<Rightarrow> Queue \<Rightarrow> bool" where
  "same_frame q q' = (capacity q' = capacity q \<and> size_q q' = size_q q \<and> head q' = head q \<and>
      tail q' = tail q \<and> length (items q') = length (items q))"

text \<open>How a call may change the occupancy count: a successful enqueue needs a free slot and
  adds one, a successful dequeue needs an item and removes one, and a call that waits or
  is cancelled changes nothing.\<close>

definition count_step :: "event \<Rightarrow> bool" where
  "count_step e =
    (if outcome e = Returned 0
     then (case request e of
             Enq it \<Rightarrow> size_q (before e) < capacity (before e) \<and>
                       size_q (after e) = size_q (before e) + 1
           | Deq old \<Rightarrow> 0 < size_q (before e) \<and> size_q (after e) = size_q (before e) - 1)
     else after e = before e)"

text \<open>Every resource acquisition of the constructor succeeds.\<close>

definition resources_ok :: "init_env \<Rightarrow> bool" where
  "resources_ok env = (malloc_queue_ok env \<and> malloc_items_ok env \<and> mutex_init_rc env = 0 \<and>
      cond_not_full_rc env = 0 \<and> cond_not_empty_rc env = 0)"

subsection \<open>Concrete inputs\<close>

definition item_A :: QueueItem where
  "item_A = \<lparr> value_i = 1, priority = 3, producer_id = 1, timestamp = 0, sequence = 1 \<rparr>"

definition item_B :: QueueItem where
  "item_B = \<lparr> value_i = 2, priority = 3, producer_id = 2, timestamp = 0, sequence = 1 \<rparr>"

definition item_C :: QueueItem where
  "item_C = \<lparr> value_i = 3, priority = 5, producer_id = 1, timestamp = 0, sequence = 2 \<rparr>"

definition env_ok :: init_env where
  "env_ok = \<lparr> malloc_queue_ok = True, malloc_items_ok = True, mutex_init_rc = 0,
              cond_not_full_rc = 0, cond_not_empty_rc = 0, fresh_slot = (\<lambda>_. item_A) \<rparr>"

text \<open>An empty queue of capacity 3, and a full one holding A, B, C in arrival order
  with the head at index 2.\<close>

definition q_empty3 :: Queue where
  "q_empty3 = \<lparr> items = [item_A, item_A, item_A], capacity = 3, size_q = 0, head = 0, tail = 0 \<rparr>"

definition q_wrapped :: Queue where
  "q_wrapped = \<lparr> items = [item_B, item_C, item_A], capacity = 3, size_q = 3, head = 2, tail = 2 \<rparr>"

section \<open>Auxiliary lemmas\<close>

subsection \<open>Slots of the ring\<close>

lemma c_mod_nonneg: "0 \<le> a \<Longrightarrow> 0 < b \<Longrightarrow> c_mod a b = Some (a mod b)"
  by (simp add: c_mod_def smod_int_alt_def sgn_if)

lemma slot_bounds: "0 < capacity q \<Longrightarrow> 0 \<le> slot q k \<and> slot q k < capacity q"
  by (simp add: slot_def)

lemma slot_step: "(slot q k + 1) mod capacity q = slot q (k + 1)"
  by (simp add: slot_def mod_simps add.assoc)

lemma slot_inj:
  assumes "0 < capacity q" "0 \<le> j" "j < capacity q" "0 \<le> k" "k < capacity q"
    and "slot q j = slot q k"
  shows "j = k"
proof -
  have "(head q + j) mod capacity q = (head q + k) mod capacity q"
    using assms(6) by (simp add: slot_def)
  then have "capacity q dvd (head q + j) - (head q + k)"
    by (simp only: mod_eq_dvd_iff)
  then have d: "capacity q dvd (j - k)" by simp
  have "\<bar>j - k\<bar> < capacity q" using assms by linarith
  with d have "j - k = 0"
    using zdvd_not_zless [of "\<bar>j - k\<bar>" "capacity q"] by fastforce
  then show ?thesis by simp
qed

lemma slot_0: "queue_inv q \<Longrightarrow> slot q 0 = head q"
  by (simp add: slot_def queue_inv_def)

lemma slot_size: "queue_inv q \<Longrightarrow> slot q (size_q q) = tail q"
  by (simp add: slot_def queue_inv_def)

subsection \<open>Enqueue\<close>

lemma rd_ok: "0 \<le> i \<Longrightarrow> i < int (length xs) \<Longrightarrow> rd xs i = Some (xs ! nat i)"
  by (simp add: rd_def)

lemma wr_ok: "0 \<le> i \<Longrightarrow> i < int (length xs) \<Longrightarrow> wr xs i v = Some (xs[nat i := v])"
  by (simp add: wr_def)

lemma enqueue_ok:
  assumes "queue_inv q" "size_q q < capacity q"
  shows "queue_enqueue d 0 (Some q) it =
     Some (Returned 0, Some (enq_state q it), dbg_enq d it (enq_state q it))"
proof -
  have w: "wr (items q) (tail q) it = Some ((items q)[nat (tail q) := it])"
    using assms by (intro wr_ok) (simp_all add: queue_inv_def)
  have m: "c_mod (tail q + 1) (capacity q) = Some ((tail q + 1) mod capacity q)"
    using assms by (intro c_mod_nonneg) (simp_all add: queue_inv_def)
  show ?thesis
    using assms(2)
    by (simp add: queue_enqueue_def queue_is_full_def w m enq_state_def dbg_enq_def)
qed

lemma inv_enq_state:
  assumes "queue_inv q" "size_q q < capacity q"
  shows "queue_inv (enq_state q it)"
proof -
  have "(tail q + 1) mod capacity q = (head q + (size_q q + 1)) mod capacity q"
    using assms(1) by (simp add: queue_inv_def mod_simps add.assoc)
  then show ?thesis
    using assms by (simp add: queue_inv_def enq_state_def)
qed

lemma nat_slot_eq: "0 < capacity q \<Longrightarrow> nat (slot q j) = nat (slot q k) \<longleftrightarrow> slot q j = slot q k"
  using slot_bounds [of q j] slot_bounds [of q k] by (simp add: eq_nat_nat_iff)

lemma length_contents: "length (contents q) = nat (size_q q)"
  by (simp add: contents_def)

lemma nth_contents: "i < nat (size_q q) \<Longrightarrow> contents q ! i = items q ! nat (slot q (int i))"
  by (simp add: contents_def)

lemma enq_state_fields:
  "items (enq_state q it) = (items q)[nat (tail q) := it]"
  "size_q (enq_state q it) = size_q q + 1"
  "capacity (enq_state q it) = capacity q"
  "head (enq_state q it) = head q"
  "tail (enq_state q it) = (tail q + 1) mod capacity q"
  "slot (enq_state q it) k = slot q k"
  by (simp_all add: enq_state_def slot_def)

lemma contents_enq_state:
  assumes "queue_inv q" "size_q q < capacity q"
  shows "contents (enq_state q it) = contents q @ [it]"
proof (rule nth_equalityI)
  show "length (contents (enq_state q it)) = length (contents q @ [it])"
    using assms by (simp add: length_contents enq_state_fields queue_inv_def nat_add_distrib)
next
  fix i assume "i < length (contents (enq_state q it))"
  then have i: "int i \<le> size_q q" and i': "i < nat (size_q (enq_state q it))"
    using assms by (simp_all add: length_contents enq_state_fields queue_inv_def)
  have cap: "0 < capacity q" and sz: "0 \<le> size_q q" using assms by (simp_all add: queue_inv_def)
  have t: "tail q = slot q (size_q q)" using assms slot_size by simp
  have len: "nat (tail q) < length (items q)"
    using assms by (simp add: queue_inv_def)
  have lhs: "contents (enq_state q it) ! i = (items q)[nat (tail q) := it] ! nat (slot q (int i))"
    using nth_contents [OF i'] by (simp add: enq_state_fields)
  show "contents (enq_state q it) ! i = (contents q @ [it]) ! i"
  proof (cases "int i = size_q q")
    case True
    then have "slot q (int i) = tail q" using t by simp
    then have "contents (enq_state q it) ! i = it"
      using len by (simp add: lhs)
    moreover have "i = length (contents q)" using True by (simp add: length_contents)
    ultimately show ?thesis by simp
  next
    case False
    with i have lt: "int i < size_q q" by simp
    then have "slot q (int i) \<noteq> slot q (size_q q)"
      using slot_inj [of q "int i" "size_q q"] cap sz assms(2) by auto
    then have "nat (slot q (int i)) \<noteq> nat (tail q)"
      using t by (simp add: nat_slot_eq [OF cap])
    moreover have "i < nat (size_q q)" using lt by simp
    ultimately show ?thesis
      by (simp add: lhs nth_append length_contents nth_contents)
  qed
qed

subsection \<open>The scan for the highest priority\<close>

lemma rd_slot: "queue_inv q \<Longrightarrow> rd (items q) (slot q k) = Some (items q ! nat (slot q k))"
  using slot_bounds [of q k] by (simp add: rd_def queue_inv_def)

lemma c_mod_slot: "queue_inv q \<Longrightarrow> c_mod (slot q k + 1) (capacity q) = Some (slot q (k + 1))"
  using slot_bounds [of q k] c_mod_nonneg [of "slot q k + 1" "capacity q"]
  by (simp add: queue_inv_def slot_step)

lemma scan_loop_spec:
  assumes inv: "queue_inv q"
  shows "0 \<le> i \<Longrightarrow> i \<le> size_q q \<Longrightarrow> 0 \<le> p \<Longrightarrow> p < size_q q \<Longrightarrow>
     (\<forall>j. 0 \<le> j \<and> j < i \<longrightarrow> pri q j \<le> pri q p) \<Longrightarrow>
     (\<forall>j. 0 \<le> j \<and> j < p \<longrightarrow> pri q j < pri q p) \<Longrightarrow>
     \<exists>p'. 0 \<le> p' \<and> p' < size_q q \<and>
       scan_loop q i (slot q i) (slot q p) (pri q p) = Some (slot q p') \<and>
       (\<forall>j. 0 \<le> j \<and> j < size_q q \<longrightarrow> pri q j \<le> pri q p') \<and>
       (\<forall>j. 0 \<le> j \<and> j < p' \<longrightarrow> pri q j < pri q p')"
proof (induction "nat (size_q q - i)" arbitrary: i p)
  case 0
  then have "i = size_q q" by simp
  then have "scan_loop q i (slot q i) (slot q p) (pri q p) = Some (slot q p)"
    by (subst scan_loop.simps) simp
  with 0 \<open>i = size_q q\<close> show ?case by blast
next
  case (Suc n)
  then have lt: "i < size_q q" by linarith
  have n: "n = nat (size_q q - (i + 1))" using Suc.hyps(2) by linarith
  have r: "rd (items q) (slot q i) = Some (items q ! nat (slot q i))"
    by (rule rd_slot [OF inv])
  have m: "c_mod (slot q i + 1) (capacity q) = Some (slot q (i + 1))"
    by (rule c_mod_slot [OF inv])
  show ?case
  proof (cases "pri q i > pri q p")
    case True
    have step: "scan_loop q i (slot q i) (slot q p) (pri q p) =
                scan_loop q (i + 1) (slot q (i + 1)) (slot q i) (pri q i)"
      using lt True by (subst scan_loop.simps) (simp add: r m pri_def)
    have a: "\<forall>j. 0 \<le> j \<and> j < i + 1 \<longrightarrow> pri q j \<le> pri q i"
    proof (intro allI impI)
      fix j assume j: "0 \<le> j \<and> j < i + 1"
      show "pri q j \<le> pri q i"
      proof (cases "j = i")
        case True then show ?thesis by simp
      next
        case False
        with j have "j < i" by simp
        with j Suc.prems(5) have "pri q j \<le> pri q p" by blast
        with True show ?thesis by simp
      qed
    qed
    have b: "\<forall>j. 0 \<le> j \<and> j < i \<longrightarrow> pri q j < pri q i"
      using Suc.prems(5) True by fastforce
    from Suc.hyps(1) [OF n _ _ Suc.prems(1) lt a b] lt Suc.prems(1)
    show ?thesis by (simp add: step)
  next
    case False
    have step: "scan_loop q i (slot q i) (slot q p) (pri q p) =
                scan_loop q (i + 1) (slot q (i + 1)) (slot q p) (pri q p)"
      using lt False by (subst scan_loop.simps) (simp add: r m pri_def)
    have a: "\<forall>j. 0 \<le> j \<and> j < i + 1 \<longrightarrow> pri q j \<le> pri q p"
    proof (intro allI impI)
      fix j assume j: "0 \<le> j \<and> j < i + 1"
      show "pri q j \<le> pri q p"
      proof (cases "j = i")
        case True then show ?thesis using False by simp
      next
        case False
        with j have "j < i" by simp
        with j Suc.prems(5) show ?thesis by blast
      qed
    qed
    from Suc.hyps(1) [OF n _ _ Suc.prems(3) Suc.prems(4) a Suc.prems(6)] lt Suc.prems(1)
    show ?thesis by (simp add: step)
  qed
qed

lemma find_highest_spec:
  assumes inv: "queue_inv q" and ne: "0 < size_q q"
  shows "\<exists>p. 0 \<le> p \<and> p < size_q q \<and>
       find_highest_priority_index q = Some (slot q p) \<and>
       (\<forall>j. 0 \<le> j \<and> j < size_q q \<longrightarrow> pri q j \<le> pri q p) \<and>
       (\<forall>j. 0 \<le> j \<and> j < p \<longrightarrow> pri q j < pri q p)"
proof -
  have h: "head q = slot q 0" using slot_0 [OF inv] by simp
  have "find_highest_priority_index q = scan_loop q 0 (slot q 0) (slot q 0) (pri q 0)"
    using ne rd_slot [OF inv, of 0]
    by (simp add: find_highest_priority_index_def queue_is_empty_def pri_def slot_0 [OF inv])
  moreover have "\<exists>p'. 0 \<le> p' \<and> p' < size_q q \<and>
       scan_loop q 0 (slot q 0) (slot q 0) (pri q 0) = Some (slot q p') \<and>
       (\<forall>j. 0 \<le> j \<and> j < size_q q \<longrightarrow> pri q j \<le> pri q p') \<and>
       (\<forall>j. 0 \<le> j \<and> j < p' \<longrightarrow> pri q j < pri q p')"
    using ne by (intro scan_loop_spec [OF inv]) simp_all
  ultimately show ?thesis by simp
qed

subsection \<open>The shifting loop\<close>

lemma same_frame_refl: "same_frame q q"
  by (simp add: same_frame_def)

lemma same_frame_slot: "same_frame q q' \<Longrightarrow> slot q' k = slot q k"
  by (simp add: same_frame_def slot_def)

lemma same_frame_inv: "same_frame q q' \<Longrightarrow> queue_inv q \<Longrightarrow> queue_inv q'"
  by (simp add: same_frame_def queue_inv_def)

lemma slot_neq:
  assumes "0 < capacity q" "0 \<le> j" "j < capacity q" "0 \<le> k" "k < capacity q" "j \<noteq> k"
  shows "nat (slot q j) \<noteq> nat (slot q k)"
  using slot_inj [OF assms(1-5)] assms(6) by (auto simp: nat_slot_eq [OF assms(1)])

lemma shift_loop_spec:
  assumes inv: "queue_inv q"
  shows "0 \<le> c \<Longrightarrow> 0 \<le> n \<Longrightarrow> c + n < capacity q \<Longrightarrow> shifts - i = n \<Longrightarrow>
     \<exists>q'. shift_loop q i shifts (slot q c) = Some q' \<and> same_frame q q' \<and>
       (\<forall>j. 0 \<le> j \<and> j < capacity q \<longrightarrow>
          items q' ! nat (slot q j) =
            (if c \<le> j \<and> j < c + n then items q ! nat (slot q (j + 1))
             else items q ! nat (slot q j)))"
  using inv
proof (induction "nat n" arbitrary: q i c n)
  case 0
  then have "n = 0" by simp
  with 0 have "shift_loop q i shifts (slot q c) = Some q"
    by (subst shift_loop.simps) simp
  then show ?case using \<open>n = 0\<close> by (simp add: same_frame_refl)
next
  case (Suc m)
  let ?xs = "(items q)[nat (slot q c) := items q ! nat (slot q (c + 1))]"
  let ?q1 = "q\<lparr> items := ?xs \<rparr>"
  have inv: "queue_inv q" by fact
  have cap: "0 < capacity q" using inv by (simp add: queue_inv_def)
  have lt: "i < shifts" using Suc by linarith
  have m1: "c_mod (slot q c + 1) (capacity q) = Some (slot q (c + 1))"
    by (rule c_mod_slot [OF inv])
  have r1: "rd (items q) (slot q (c + 1)) = Some (items q ! nat (slot q (c + 1)))"
    by (rule rd_slot [OF inv])
  have w1: "wr (items q) (slot q c) (items q ! nat (slot q (c + 1))) = Some ?xs"
    using slot_bounds [OF cap, of c] inv by (simp add: wr_def queue_inv_def)
  have step: "shift_loop q i shifts (slot q c) = shift_loop ?q1 (i + 1) shifts (slot q (c + 1))"
    using lt by (subst shift_loop.simps) (simp add: m1 r1 w1)
  have sf1: "same_frame q ?q1" by (simp add: same_frame_def)
  have inv1: "queue_inv ?q1" using same_frame_inv [OF sf1 inv] .
  have sl1: "slot ?q1 k = slot q k" for k by (simp add: slot_def)
  have "\<exists>q'. shift_loop ?q1 (i + 1) shifts (slot ?q1 (c + 1)) = Some q' \<and> same_frame ?q1 q' \<and>
       (\<forall>j. 0 \<le> j \<and> j < capacity ?q1 \<longrightarrow>
          items q' ! nat (slot ?q1 j) =
            (if c + 1 \<le> j \<and> j < c + 1 + (n - 1) then items ?q1 ! nat (slot ?q1 (j + 1))
             else items ?q1 ! nat (slot ?q1 j)))"
    using Suc.hyps(2) Suc.prems(1-4)
    by (intro Suc.hyps(1) inv1) simp_all
  then obtain q' where q': "shift_loop ?q1 (i + 1) shifts (slot q (c + 1)) = Some q'"
    and sf: "same_frame ?q1 q'"
    and it: "\<And>j. 0 \<le> j \<Longrightarrow> j < capacity q \<Longrightarrow>
          items q' ! nat (slot q j) =
            (if c + 1 \<le> j \<and> j < c + n then ?xs ! nat (slot q (j + 1))
             else ?xs ! nat (slot q j))"
    by (auto simp: sl1)
  have sf': "same_frame q q'" using sf by (simp add: same_frame_def)
  have len: "nat (slot q k) < length (items q)" for k
    using slot_bounds [OF cap, of k] inv by (simp add: queue_inv_def)
  have "items q' ! nat (slot q j) =
            (if c \<le> j \<and> j < c + n then items q ! nat (slot q (j + 1))
             else items q ! nat (slot q j))" if j: "0 \<le> j" "j < capacity q" for j
  proof (cases "j = c")
    case True
    then show ?thesis using it [OF j] Suc.hyps(2) len [of c] by simp
  next
    case False
    have cb: "0 \<le> c" "c < capacity q" using Suc.prems(1,2,3) by linarith+
    have ne: "nat (slot q j) \<noteq> nat (slot q c)"
      by (rule slot_neq [OF cap j cb False])
    show ?thesis
    proof (cases "c + 1 \<le> j \<and> j < c + n")
      case True
      then have "0 \<le> j + 1" "j + 1 < capacity q" "j + 1 \<noteq> c"
        using j Suc.prems(3) by linarith+
      then have "nat (slot q (j + 1)) \<noteq> nat (slot q c)"
        using cb by (intro slot_neq [OF cap])
      then show ?thesis using it [OF j] True by simp
    next
      case False
      then show ?thesis using it [OF j] ne \<open>j \<noteq> c\<close> by auto
    qed
  qed
  then show ?case using q' sf' by (simp add: step)
qed

subsection \<open>Removal at an index\<close>

lemma mod_range:
  fixes x c :: int
  assumes "0 \<le> x" "x < 2 * c"
  shows "x mod c = (if x < c then x else x - c)"
proof (cases "x < c")
  case True
  then show ?thesis using assms by simp
next
  case False
  then have r: "0 \<le> x - c" "x - c < c" using assms by linarith+
  have "x mod c = (x - c) mod c" by simp
  also have "\<dots> = x - c" using r by (rule mod_pos_pos_trivial)
  finally have e: "x mod c = x - c" .
  show ?thesis unfolding e using False by simp
qed

lemma shifts_eq:
  assumes inv: "queue_inv q" and p: "0 < p" "p < size_q q"
  shows "(if slot q p \<ge> head q
          then (if tail q > slot q p then tail q - slot q p - 1
                else (capacity q - slot q p) + tail q - 1)
          else tail q - slot q p - 1) = size_q q - 1 - p"
proof -
  have b: "0 < capacity q" "0 \<le> head q" "head q < capacity q" "size_q q \<le> capacity q"
    using inv by (simp_all add: queue_inv_def)
  have t: "tail q = (head q + size_q q) mod capacity q"
    using inv by (simp add: queue_inv_def)
  have t': "tail q = (if head q + size_q q < capacity q then head q + size_q q
                      else head q + size_q q - capacity q)"
    unfolding t using b p by (intro mod_range) linarith+
  have s': "slot q p = (if head q + p < capacity q then head q + p else head q + p - capacity q)"
    unfolding slot_def using b p by (intro mod_range) linarith+
  show ?thesis
    unfolding t' s' using b p by (simp split: if_splits)
qed

lemma remove_at_index_spec:
  assumes inv: "queue_inv q" and p: "0 < p" "p < size_q q"
  shows "\<exists>q'. remove_at_index q (slot q p) = Some q' \<and>
       capacity q' = capacity q \<and> size_q q' = size_q q - 1 \<and> head q' = head q \<and>
       tail q' = (tail q - 1 + capacity q) mod capacity q \<and>
       length (items q') = length (items q) \<and>
       (\<forall>j. 0 \<le> j \<and> j < capacity q \<longrightarrow>
          items q' ! nat (slot q j) =
            (if p \<le> j \<and> j < size_q q - 1 then items q ! nat (slot q (j + 1))
             else items q ! nat (slot q j)))"
proof -
  have b: "0 < capacity q" "0 \<le> tail q" "size_q q \<le> capacity q"
    using inv by (simp_all add: queue_inv_def)
  have "\<exists>q1. shift_loop q 0 (size_q q - 1 - p) (slot q p) = Some q1 \<and> same_frame q q1 \<and>
       (\<forall>j. 0 \<le> j \<and> j < capacity q \<longrightarrow>
          items q1 ! nat (slot q j) =
            (if p \<le> j \<and> j < p + (size_q q - 1 - p) then items q ! nat (slot q (j + 1))
             else items q ! nat (slot q j)))"
    using p b by (intro shift_loop_spec [OF inv]) linarith+
  then obtain q1 where q1: "shift_loop q 0 (size_q q - 1 - p) (slot q p) = Some q1"
    and sf: "same_frame q q1"
    and it: "\<forall>j. 0 \<le> j \<and> j < capacity q \<longrightarrow>
          items q1 ! nat (slot q j) =
            (if p \<le> j \<and> j < size_q q - 1 then items q ! nat (slot q (j + 1))
             else items q ! nat (slot q j))"
    by auto
  have m: "c_mod (tail q1 - 1 + capacity q1) (capacity q1) =
           Some ((tail q - 1 + capacity q) mod capacity q)"
    using sf b by (simp add: same_frame_def c_mod_nonneg)
  have "remove_at_index q (slot q p) =
        Some (q1\<lparr> tail := (tail q - 1 + capacity q) mod capacity q, size_q := size_q q1 - 1 \<rparr>)"
    unfolding remove_at_index_def shifts_eq [OF inv p] by (simp add: q1 m)
  then show ?thesis using sf it by (simp add: same_frame_def)
qed

subsection \<open>Dequeue\<close>

lemma slot_head_iff:
  assumes inv: "queue_inv q" and p: "0 \<le> p" "p < size_q q"
  shows "slot q p = head q \<longleftrightarrow> p = 0"
proof -
  have b: "0 < capacity q" "size_q q \<le> capacity q" using inv by (simp_all add: queue_inv_def)
  have "slot q p = slot q 0 \<Longrightarrow> p = 0"
    using b p by (intro slot_inj [of q p 0]) linarith+
  then show ?thesis using slot_0 [OF inv] by auto
qed

lemma dequeue_spec:
  assumes inv: "queue_inv q" and ne: "0 < size_q q"
  shows "\<exists>p q'. 0 \<le> p \<and> p < size_q q \<and>
      (\<forall>j. 0 \<le> j \<and> j < size_q q \<longrightarrow> pri q j \<le> pri q p) \<and>
      (\<forall>j. 0 \<le> j \<and> j < p \<longrightarrow> pri q j < pri q p) \<and>
      find_highest_priority_index q = Some (slot q p) \<and>
      queue_dequeue d 0 (Some q) (Some old) =
        Some (Returned 0, Some q', Some (items q ! nat (slot q p)),
              dbg_deq d (items q ! nat (slot q p)) q') \<and>
      capacity q' = capacity q \<and> size_q q' = size_q q - 1 \<and>
      length (items q') = length (items q) \<and>
      (p = 0 \<longrightarrow> head q' = (head q + 1) mod capacity q \<and> tail q' = tail q \<and>
                 items q' = items q) \<and>
      (p \<noteq> 0 \<longrightarrow> head q' = head q \<and> tail q' = (tail q - 1 + capacity q) mod capacity q \<and>
         (\<forall>j. 0 \<le> j \<and> j < capacity q \<longrightarrow>
            items q' ! nat (slot q j) =
              (if p \<le> j \<and> j < size_q q - 1 then items q ! nat (slot q (j + 1))
               else items q ! nat (slot q j))))"
proof -
  from find_highest_spec [OF inv ne] obtain p where p: "0 \<le> p" "p < size_q q"
    and f: "find_highest_priority_index q = Some (slot q p)"
    and mx: "\<forall>j. 0 \<le> j \<and> j < size_q q \<longrightarrow> pri q j \<le> pri q p"
    and fst: "\<forall>j. 0 \<le> j \<and> j < p \<longrightarrow> pri q j < pri q p"
    by blast
  have b: "0 < capacity q" "0 \<le> head q" using inv by (simp_all add: queue_inv_def)
  have sb: "0 \<le> slot q p" using slot_bounds [OF b(1), of p] by simp
  then have n1: "slot q p \<noteq> - 1" by linarith
  have r: "rd (items q) (slot q p) = Some (items q ! nat (slot q p))"
    by (rule rd_slot [OF inv])
  have pre: "queue_dequeue d 0 (Some q) (Some old) =
     (case (if slot q p = head q
            then (case c_mod (head q + 1) (capacity q) of
                    None \<Rightarrow> None
                  | Some h \<Rightarrow> Some (q\<lparr> head := h, size_q := size_q q - 1 \<rparr>))
            else remove_at_index q (slot q p)) of
        None \<Rightarrow> None
      | Some q' \<Rightarrow> Some (Returned 0, Some q', Some (items q ! nat (slot q p)),
                        dbg_deq d (items q ! nat (slot q p)) q'))"
    using ne n1
    by (simp add: queue_dequeue_def queue_is_empty_def f r dbg_deq_def split: option.splits)
  show ?thesis
  proof (cases "p = 0")
    case True
    have m: "c_mod (head q + 1) (capacity q) = Some ((head q + 1) mod capacity q)"
      using b by (intro c_mod_nonneg) linarith+
    have "queue_dequeue d 0 (Some q) (Some old) =
        Some (Returned 0, Some (q\<lparr> head := (head q + 1) mod capacity q, size_q := size_q q - 1 \<rparr>),
              Some (items q ! nat (slot q p)),
              dbg_deq d (items q ! nat (slot q p))
                (q\<lparr> head := (head q + 1) mod capacity q, size_q := size_q q - 1 \<rparr>))"
      unfolding pre using True slot_0 [OF inv] by (simp add: m)
    then show ?thesis
      using p mx fst f True
      by (intro exI [of _ p] exI [of _ "q\<lparr> head := (head q + 1) mod capacity q, size_q := size_q q - 1 \<rparr>"])
         simp
  next
    case False
    with p have p0: "0 < p" by simp
    have nh: "slot q p \<noteq> head q" using slot_head_iff [OF inv p] False by simp
    from remove_at_index_spec [OF inv p0 p(2)] obtain q' where
      q': "remove_at_index q (slot q p) = Some q'"
      and rest: "capacity q' = capacity q" "size_q q' = size_q q - 1" "head q' = head q"
        "tail q' = (tail q - 1 + capacity q) mod capacity q"
        "length (items q') = length (items q)"
        "\<forall>j. 0 \<le> j \<and> j < capacity q \<longrightarrow>
          items q' ! nat (slot q j) =
            (if p \<le> j \<and> j < size_q q - 1 then items q ! nat (slot q (j + 1))
             else items q ! nat (slot q j))"
      by blast
    have "queue_dequeue d 0 (Some q) (Some old) =
        Some (Returned 0, Some q', Some (items q ! nat (slot q p)),
              dbg_deq d (items q ! nat (slot q p)) q')"
      unfolding pre using nh by (simp add: q')
    then show ?thesis
      using p mx fst f False rest
      by (intro exI [of _ p] exI [of _ q']) simp
  qed
qed

lemma nth_remove_pos:
  assumes "p < length xs" "k < length xs - 1"
  shows "(take p xs @ drop (Suc p) xs) ! k = (if k < p then xs ! k else xs ! Suc k)"
  using assms by (auto simp: nth_append min_def)

lemma pri_contents: "0 \<le> j \<Longrightarrow> j < size_q q \<Longrightarrow> pri q j = priority (contents q ! nat j)"
  by (simp add: pri_def nth_contents)

lemma dequeue_abs:
  assumes inv: "queue_inv q" and ne: "0 < size_q q"
  shows "\<exists>p q'. p < length (contents q) \<and>
      (\<forall>j < length (contents q). priority (contents q ! j) \<le> priority (contents q ! p)) \<and>
      (\<forall>j < p. priority (contents q ! j) < priority (contents q ! p)) \<and>
      find_highest_priority_index q = Some (slot q (int p)) \<and>
      queue_dequeue d 0 (Some q) (Some old) =
        Some (Returned 0, Some q', Some (contents q ! p), dbg_deq d (contents q ! p) q') \<and>
      queue_inv q' \<and> capacity q' = capacity q \<and> size_q q' = size_q q - 1 \<and>
      contents q' = take p (contents q) @ drop (Suc p) (contents q) \<and>
      (p = 0 \<longrightarrow> head q' = (head q + 1) mod capacity q \<and> tail q' = tail q \<and>
                 items q' = items q) \<and>
      (p \<noteq> 0 \<longrightarrow> head q' = head q \<and> tail q' = (tail q - 1 + capacity q) mod capacity q \<and>
         (\<forall>j. 0 \<le> j \<and> j < capacity q \<longrightarrow>
            items q' ! nat (slot q j) =
              (if int p \<le> j \<and> j < size_q q - 1 then items q ! nat (slot q (j + 1))
               else items q ! nat (slot q j))))"
proof -
  from dequeue_spec [OF inv ne, of d old] obtain p q' where
    p: "0 \<le> p" "p < size_q q"
    and mx: "\<forall>j. 0 \<le> j \<and> j < size_q q \<longrightarrow> pri q j \<le> pri q p"
    and fst: "\<forall>j. 0 \<le> j \<and> j < p \<longrightarrow> pri q j < pri q p"
    and f: "find_highest_priority_index q = Some (slot q p)"
    and dq: "queue_dequeue d 0 (Some q) (Some old) =
        Some (Returned 0, Some q', Some (items q ! nat (slot q p)),
              dbg_deq d (items q ! nat (slot q p)) q')"
    and fr: "capacity q' = capacity q" "size_q q' = size_q q - 1"
      "length (items q') = length (items q)"
    and hd0: "p = 0 \<longrightarrow> head q' = (head q + 1) mod capacity q \<and> tail q' = tail q \<and>
                 items q' = items q"
    and mid: "p \<noteq> 0 \<longrightarrow> head q' = head q \<and>
         tail q' = (tail q - 1 + capacity q) mod capacity q \<and>
         (\<forall>j. 0 \<le> j \<and> j < capacity q \<longrightarrow>
            items q' ! nat (slot q j) =
              (if p \<le> j \<and> j < size_q q - 1 then items q ! nat (slot q (j + 1))
               else items q ! nat (slot q j)))"
    by blast
  have b: "0 < capacity q" "capacity q \<le> 20" "length (items q) = nat (capacity q)"
    "size_q q \<le> capacity q" "0 \<le> head q" "head q < capacity q" "0 \<le> tail q"
    "tail q < capacity q" "tail q = (head q + size_q q) mod capacity q"
    using inv by (simp_all add: queue_inv_def)
  have sel: "items q ! nat (slot q p) = contents q ! nat p"
    using p by (simp add: nth_contents)
  have c1: "nat p < length (contents q)" using p by (simp add: length_contents)
  have c2: "\<forall>j < length (contents q). priority (contents q ! j) \<le> priority (contents q ! nat p)"
  proof (intro allI impI)
    fix j assume "j < length (contents q)"
    then have "0 \<le> int j \<and> int j < size_q q" by (simp add: length_contents)
    then have "pri q (int j) \<le> pri q p" using mx by blast
    then show "priority (contents q ! j) \<le> priority (contents q ! nat p)"
      using p \<open>0 \<le> int j \<and> int j < size_q q\<close> by (simp add: pri_contents)
  qed
  have c3: "\<forall>j < nat p. priority (contents q ! j) < priority (contents q ! nat p)"
  proof (intro allI impI)
    fix j assume "j < nat p"
    then have j: "0 \<le> int j \<and> int j < p" by simp
    then have "pri q (int j) < pri q p" using fst by blast
    then show "priority (contents q ! j) < priority (contents q ! nat p)"
      using p j by (simp add: pri_contents)
  qed
  have inv': "queue_inv q'"
  proof (cases "p = 0")
    case True
    have "(head q + 1) mod capacity q + (size_q q - 1) = (head q + 1) mod capacity q + size_q q - 1"
      by simp
    have "((head q + 1) mod capacity q + (size_q q - 1)) mod capacity q =
          (head q + 1 + (size_q q - 1)) mod capacity q"
      by (simp only: mod_add_left_eq)
    then have "((head q + 1) mod capacity q + (size_q q - 1)) mod capacity q = tail q"
      using b(9) by simp
    then show ?thesis
      using True hd0 fr b ne by (simp add: queue_inv_def)
  next
    case False
    have "(tail q - 1 + capacity q) mod capacity q = (tail q - 1) mod capacity q" by simp
    also have "\<dots> = ((head q + size_q q) mod capacity q - 1) mod capacity q"
      using b(9) by simp
    also have "\<dots> = (head q + size_q q - 1) mod capacity q"
      by (simp only: mod_diff_left_eq)
    finally have "(tail q - 1 + capacity q) mod capacity q = (head q + (size_q q - 1)) mod capacity q"
      by (simp add: algebra_simps)
    then show ?thesis
      using False mid fr b ne by (simp add: queue_inv_def)
  qed
  have len': "length (contents q') = length (contents q) - 1"
    using fr ne by (simp add: length_contents nat_diff_distrib)
  have ct: "contents q' = take (nat p) (contents q) @ drop (Suc (nat p)) (contents q)"
  proof (rule nth_equalityI)
    show "length (contents q') = length (take (nat p) (contents q) @ drop (Suc (nat p)) (contents q))"
      using c1 len' by simp
  next
    fix k assume "k < length (contents q')"
    then have k: "k < length (contents q) - 1" using len' by simp
    then have k': "k < nat (size_q q')" "int k < size_q q - 1" "Suc k < nat (size_q q)"
      using fr by (simp_all add: length_contents)
    have rhs: "(take (nat p) (contents q) @ drop (Suc (nat p)) (contents q)) ! k =
               (if k < nat p then contents q ! k else contents q ! Suc k)"
      by (rule nth_remove_pos [OF c1 k])
    have lhs: "contents q' ! k = items q' ! nat (slot q' (int k))"
      by (rule nth_contents [OF k'(1)])
    show "contents q' ! k = (take (nat p) (contents q) @ drop (Suc (nat p)) (contents q)) ! k"
    proof (cases "p = 0")
      case True
      have "slot q' (int k) = slot q (int k + 1)"
        using True hd0 fr by (simp add: slot_def mod_simps ac_simps)
      then have "contents q' ! k = items q ! nat (slot q (int (Suc k)))"
        using True hd0 by (simp add: lhs add.commute)
      also have "\<dots> = contents q ! Suc k"
        using k'(3) by (simp add: nth_contents)
      finally show ?thesis unfolding rhs using True by simp
    next
      case False
      have s: "slot q' (int k) = slot q (int k)"
        using False mid fr by (simp add: slot_def)
      have "0 \<le> int k \<and> int k < capacity q" using k'(2) b(4) by linarith
      then have "items q' ! nat (slot q (int k)) =
              (if p \<le> int k \<and> int k < size_q q - 1 then items q ! nat (slot q (int k + 1))
               else items q ! nat (slot q (int k)))"
        using False mid by blast
      then have "contents q' ! k = (if p \<le> int k then items q ! nat (slot q (int (Suc k)))
               else items q ! nat (slot q (int k)))"
        using k'(2) by (simp add: lhs s add.commute)
      also have "\<dots> = (if k < nat p then contents q ! k else contents q ! Suc k)"
        using k'(3) p by (auto simp: nth_contents)
      finally show ?thesis unfolding rhs by simp
    qed
  qed
  have mid': "nat p \<noteq> 0 \<longrightarrow> head q' = head q \<and>
         tail q' = (tail q - 1 + capacity q) mod capacity q \<and>
         (\<forall>j. 0 \<le> j \<and> j < capacity q \<longrightarrow>
            items q' ! nat (slot q j) =
              (if int (nat p) \<le> j \<and> j < size_q q - 1 then items q ! nat (slot q (j + 1))
               else items q ! nat (slot q j)))"
    using mid p by simp
  have hd0': "nat p = 0 \<longrightarrow> head q' = (head q + 1) mod capacity q \<and> tail q' = tail q \<and>
                 items q' = items q"
    using hd0 p by simp
  have f': "find_highest_priority_index q = Some (slot q (int (nat p)))"
    using f p by simp
  show ?thesis
    using c1 c2 c3 f' dq [unfolded sel] inv' fr(1,2) ct hd0' mid'
    by (intro exI [of _ "nat p"] exI [of _ q'] conjI)
qed

subsection \<open>The constructor\<close>

lemma queue_init_cases:
  "queue_init d env live c =
    (if c \<le> 0 \<or> c > 20 then (None, live, [Err_invalid_capacity c])
     else if \<not> malloc_queue_ok env then (None, live, [Err_alloc_queue])
     else if \<not> malloc_items_ok env then (None, live, [Err_alloc_items])
     else if mutex_init_rc env \<noteq> 0 then (None, live, [Err_mutex_init])
     else if cond_not_full_rc env \<noteq> 0 then (None, live, [Err_cond_not_full])
     else if cond_not_empty_rc env \<noteq> 0 then (None, live, [Err_cond_not_empty])
     else (Some \<lparr> items = map (fresh_slot env) [0 ..< nat c],
                   capacity = c, size_q = 0, head = 0, tail = 0 \<rparr>,
           [Cond_not_empty, Cond_not_full, Mutex, Items_array, Queue_struct] @ live,
           if d \<noteq> 0 then [Dbg_initialized c] else []))"
  by (simp add: queue_init_def release_def acquire_def Let_def)

lemma queue_init_inv:
  assumes "queue_init d env live c = (Some q, live', out)"
  shows "queue_inv q \<and> capacity q = c \<and> size_q q = 0"
  using assms by (auto simp: queue_init_cases queue_inv_def split: if_splits)

lemma q_wrapped_inv: "queue_inv q_wrapped"
  by (simp add: queue_inv_def q_wrapped_def)

lemma q_empty3_inv: "queue_inv q_empty3"
  by (simp add: queue_inv_def q_empty3_def)

lemma contents_q_wrapped: "contents q_wrapped = [item_A, item_B, item_C]"
  by (simp add: contents_def slot_def q_wrapped_def upt_rec)

subsection \<open>Calls under any flag value\<close>

lemma enqueue_cases:
  assumes "queue_inv q"
  shows "queue_enqueue d f (Some q) it =
    (if f \<noteq> 0 then Some (Returned (- 1), Some q, [])
     else if size_q q = capacity q then Some (Waiting, Some q, [])
     else Some (Returned 0, Some (enq_state q it), dbg_enq d it (enq_state q it)))"
proof (cases "f = 0 \<and> size_q q \<noteq> capacity q")
  case True
  then have "size_q q < capacity q" using assms by (simp add: queue_inv_def)
  from enqueue_ok [OF assms this] True show ?thesis by simp
next
  case False
  then show ?thesis by (auto simp: queue_enqueue_def queue_is_full_def)
qed

lemma dequeue_not_ready:
  "f \<noteq> 0 \<or> size_q q = 0 \<Longrightarrow> queue_dequeue d f (Some q) (Some old) =
    (if f \<noteq> 0 then Some (Returned (- 1), Some q, Some old, [])
     else Some (Waiting, Some q, Some old, []))"
  by (auto simp: queue_dequeue_def queue_is_empty_def)

lemma occupied_distinct:
  assumes "queue_inv q"
  shows "distinct (map (\<lambda>k. slot q (int k)) [0 ..< nat (size_q q)])"
proof -
  have cap: "0 < capacity q" "size_q q \<le> capacity q" using assms by (simp_all add: queue_inv_def)
  have "inj_on (\<lambda>k. slot q (int k)) (set [0 ..< nat (size_q q)])"
  proof (rule inj_onI)
    fix x y assume x: "x \<in> set [0 ..< nat (size_q q)]" and y: "y \<in> set [0 ..< nat (size_q q)]"
      and e: "slot q (int x) = slot q (int y)"
    have "int x < capacity q" "int y < capacity q" using x y cap by auto
    then have "int x = int y"
      using cap(1) e by (intro slot_inj [of q "int x" "int y"]) simp_all
    then show "x = y" by simp
  qed
  then show ?thesis by (simp add: distinct_map)
qed

subsection \<open>Runs\<close>

lemma mset_remove_pos:
  assumes "p < length xs"
  shows "mset xs = add_mset (xs ! p) (mset (take p xs @ drop (Suc p) xs))"
proof -
  have "xs = take p xs @ xs ! p # drop (Suc p) xs"
    using assms by (rule id_take_nth_drop)
  then have "mset xs = mset (take p xs @ xs ! p # drop (Suc p) xs)" by simp
  then show ?thesis by simp
qed

lemma dequeue_at:
  assumes inv: "queue_inv q" and p0: "p0 < length (contents q)"
    and mx: "\<forall>j < length (contents q). priority (contents q ! j) \<le> priority (contents q ! p0)"
    and fst: "\<forall>j < p0. priority (contents q ! j) < priority (contents q ! p0)"
  shows "\<exists>q'. queue_dequeue d 0 (Some q) (Some old) =
        Some (Returned 0, Some q', Some (contents q ! p0), dbg_deq d (contents q ! p0) q') \<and>
      queue_inv q' \<and> capacity q' = capacity q \<and> size_q q' = size_q q - 1 \<and>
      contents q' = take p0 (contents q) @ drop (Suc p0) (contents q)"
proof -
  have ne: "0 < size_q q" using p0 by (simp add: length_contents)
  from dequeue_abs [OF inv ne, of d old] obtain p q' where
    p: "p < length (contents q)"
    and pmx: "\<forall>j < length (contents q). priority (contents q ! j) \<le> priority (contents q ! p)"
    and pfst: "\<forall>j < p. priority (contents q ! j) < priority (contents q ! p)"
    and dq: "queue_dequeue d 0 (Some q) (Some old) =
        Some (Returned 0, Some q', Some (contents q ! p), dbg_deq d (contents q ! p) q')"
    and rest: "queue_inv q'" "capacity q' = capacity q" "size_q q' = size_q q - 1"
      "contents q' = take p (contents q) @ drop (Suc p) (contents q)"
    by blast
  have "p = p0"
  proof (rule ccontr)
    assume "p \<noteq> p0"
    then consider "p < p0" | "p0 < p" by linarith
    then show False
    proof cases
      case 1
      then have "priority (contents q ! p) < priority (contents q ! p0)" using fst by blast
      moreover have "priority (contents q ! p0) \<le> priority (contents q ! p)" using pmx p0 by blast
      ultimately show False by simp
    next
      case 2
      then have "priority (contents q ! p0) < priority (contents q ! p)" using pfst by blast
      moreover have "priority (contents q ! p) \<le> priority (contents q ! p0)" using mx p by blast
      ultimately show False by simp
    qed
  qed
  with dq rest show ?thesis by blast
qed

lemma apply_op_enq:
  assumes "queue_inv q" "size_q q < capacity q"
  shows "apply_op d q (0, Enq it) =
     Some \<lparr> before = q, flag = 0, request = Enq it, outcome = Returned 0,
            delivered = None, after = enq_state q it \<rparr>"
  using enqueue_ok [OF assms, of d it] by (simp add: apply_op_def)

lemma apply_op_deq_at:
  assumes inv: "queue_inv q" and p0: "p0 < length (contents q)"
    and mx: "\<forall>j < length (contents q). priority (contents q ! j) \<le> priority (contents q ! p0)"
    and fst: "\<forall>j < p0. priority (contents q ! j) < priority (contents q ! p0)"
  shows "\<exists>q'. apply_op d q (0, Deq old) =
        Some \<lparr> before = q, flag = 0, request = Deq old, outcome = Returned 0,
               delivered = Some (contents q ! p0), after = q' \<rparr> \<and>
      queue_inv q' \<and> capacity q' = capacity q \<and> size_q q' = size_q q - 1 \<and>
      contents q' = take p0 (contents q) @ drop (Suc p0) (contents q)"
proof -
  from dequeue_at [OF assms, of d old] obtain q' where
    dq: "queue_dequeue d 0 (Some q) (Some old) =
        Some (Returned 0, Some q', Some (contents q ! p0), dbg_deq d (contents q ! p0) q')"
    and rest: "queue_inv q' \<and> capacity q' = capacity q \<and> size_q q' = size_q q - 1 \<and>
      contents q' = take p0 (contents q) @ drop (Suc p0) (contents q)"
    by blast
  have "apply_op d q (0, Deq old) =
        Some \<lparr> before = q, flag = 0, request = Deq old, outcome = Returned 0,
               delivered = Some (contents q ! p0), after = q' \<rparr>"
    by (simp add: apply_op_def dq)
  with rest show ?thesis by blast
qed

lemma apply_op_spec:
  assumes inv: "queue_inv q"
  shows "\<exists>e. apply_op d q (f, x) = Some e \<and> before e = q \<and> flag e = f \<and> request e = x \<and>
      queue_inv (after e) \<and> capacity (after e) = capacity q \<and> count_step e \<and>
      mset (contents q) + mset (inserted_of e) = mset (contents (after e)) + mset (removed_of e)"
proof (cases x)
  case (Enq it)
  show ?thesis
  proof (cases "f = 0 \<and> size_q q \<noteq> capacity q")
    case True
    then have lt: "size_q q < capacity q" using inv by (simp add: queue_inv_def)
    have "apply_op d q (f, x) =
       Some \<lparr> before = q, flag = f, request = Enq it, outcome = Returned 0,
              delivered = None, after = enq_state q it \<rparr>"
      using apply_op_enq [OF inv lt, of d it] True Enq by simp
    then show ?thesis
      using inv_enq_state [OF inv lt, of it] contents_enq_state [OF inv lt, of it] Enq lt
      by (simp add: count_step_def inserted_of_def removed_of_def enq_state_fields)
  next
    case False
    then have "apply_op d q (f, x) =
       Some \<lparr> before = q, flag = f, request = Enq it,
              outcome = (if f \<noteq> 0 then Returned (- 1) else Waiting),
              delivered = None, after = q \<rparr>"
      using Enq by (auto simp: apply_op_def enqueue_cases [OF inv])
    then show ?thesis
      using inv Enq by (simp add: count_step_def inserted_of_def removed_of_def)
  qed
next
  case (Deq old)
  show ?thesis
  proof (cases "f \<noteq> 0 \<or> size_q q = 0")
    case True
    from dequeue_not_ready [OF this, of d old]
    have "apply_op d q (f, x) =
       Some \<lparr> before = q, flag = f, request = Deq old,
              outcome = (if f \<noteq> 0 then Returned (- 1) else Waiting),
              delivered = Some old, after = q \<rparr>"
      using Deq by (simp add: apply_op_def)
    then show ?thesis
      using inv Deq by (simp add: count_step_def inserted_of_def removed_of_def)
  next
    case False
    then have ne: "0 < size_q q" and f: "f = 0" using inv by (simp_all add: queue_inv_def)
    from dequeue_abs [OF inv ne, of d old] obtain p q' where
      p: "p < length (contents q)"
      and dq: "queue_dequeue d 0 (Some q) (Some old) =
        Some (Returned 0, Some q', Some (contents q ! p), dbg_deq d (contents q ! p) q')"
      and rest: "queue_inv q'" "capacity q' = capacity q" "size_q q' = size_q q - 1"
        "contents q' = take p (contents q) @ drop (Suc p) (contents q)"
      by blast
    have "apply_op d q (f, x) =
        Some \<lparr> before = q, flag = f, request = Deq old, outcome = Returned 0,
               delivered = Some (contents q ! p), after = q' \<rparr>"
      using Deq f by (simp add: apply_op_def dq)
    then show ?thesis
      using rest ne Deq mset_remove_pos [OF p]
      by (simp add: count_step_def inserted_of_def removed_of_def)
  qed
qed

lemma final_queue_Cons: "final_queue q (e # es) = final_queue (after e) es"
  by (simp add: final_queue_def)

lemma run_ops_spec:
  assumes "queue_inv q"
  shows "\<exists>evs. run_ops d q ops = Some evs \<and> length evs = length ops \<and>
      map before evs @ [final_queue q evs] = q # map after evs \<and>
      queue_inv (final_queue q evs) \<and>
      (\<forall>e \<in> set evs. queue_inv (before e) \<and> queue_inv (after e) \<and>
          capacity (before e) = capacity q \<and> capacity (after e) = capacity q \<and> count_step e) \<and>
      mset (contents q) + mset (concat (map inserted_of evs)) =
        mset (contents (final_queue q evs)) + mset (concat (map removed_of evs))"
  using assms
proof (induction ops arbitrary: q)
  case Nil
  then show ?case by (simp add: final_queue_def)
next
  case (Cons x ops)
  obtain f o' where x: "x = (f, o')" by (cases x)
  from apply_op_spec [OF Cons.prems, of d f o'] obtain e where
    e: "apply_op d q x = Some e" "before e = q" "queue_inv (after e)"
      "capacity (after e) = capacity q" "count_step e"
      "mset (contents q) + mset (inserted_of e) = mset (contents (after e)) + mset (removed_of e)"
    unfolding x by blast
  from Cons.IH [OF e(3)] obtain evs where
    evs: "run_ops d (after e) ops = Some evs" "length evs = length ops"
      "map before evs @ [final_queue (after e) evs] = after e # map after evs"
      "queue_inv (final_queue (after e) evs)"
      "\<forall>e' \<in> set evs. queue_inv (before e') \<and> queue_inv (after e') \<and>
          capacity (before e') = capacity (after e) \<and> capacity (after e') = capacity (after e) \<and>
          count_step e'"
      "mset (contents (after e)) + mset (concat (map inserted_of evs)) =
        mset (contents (final_queue (after e) evs)) + mset (concat (map removed_of evs))"
    by blast
  have r: "run_ops d q (x # ops) = Some (e # evs)" by (simp add: e(1) evs(1))
  have m: "mset (contents q) + mset (concat (map inserted_of (e # evs))) =
        mset (contents (final_queue q (e # evs))) + mset (concat (map removed_of (e # evs)))"
  proof -
    have "mset (contents q) + mset (concat (map inserted_of (e # evs))) =
          (mset (contents q) + mset (inserted_of e)) + mset (concat (map inserted_of evs))"
      by simp
    also have "\<dots> = (mset (contents (after e)) + mset (concat (map inserted_of evs))) +
          mset (removed_of e)"
      unfolding e(6) by simp
    also have "\<dots> = mset (contents (final_queue (after e) evs)) +
          mset (concat (map removed_of evs)) + mset (removed_of e)"
      unfolding evs(6) by simp
    finally show ?thesis by (simp add: final_queue_Cons)
  qed
  show ?case
    using r evs(2-5) e(2-5) Cons.prems m
    by (intro exI [of _ "e # evs"]) (simp add: final_queue_Cons)
qed

subsection \<open>The tie-break example\<close>

lemma contents_empty: "size_q q = 0 \<Longrightarrow> contents q = []"
  by (simp add: contents_def)

lemma fifo_tie_break_example:
  assumes inv: "queue_inv q" and emp: "size_q q = 0" and cap: "3 \<le> capacity q"
    and pa: "priority A = 3" and pb: "priority B = 3" and pc: "priority C = 5"
  shows "\<exists>evs. run_ops d q [(0, Enq A), (0, Enq B), (0, Enq C),
                            (0, Deq x), (0, Deq y), (0, Deq z)] = Some evs \<and>
      concat (map removed_of evs) = [C, A, B] \<and> size_q (final_queue q evs) = 0"
proof -
  let ?q1 = "enq_state q A"
  let ?q2 = "enq_state ?q1 B"
  let ?q3 = "enq_state ?q2 C"
  have l0: "size_q q < capacity q" using emp cap by simp
  have i1: "queue_inv ?q1" by (rule inv_enq_state [OF inv l0])
  have c1: "contents ?q1 = [A]"
    using contents_enq_state [OF inv l0, of A] contents_empty [OF emp] by simp
  have l1: "size_q ?q1 < capacity ?q1" using emp cap by (simp add: enq_state_fields)
  have i2: "queue_inv ?q2" by (rule inv_enq_state [OF i1 l1])
  have c2: "contents ?q2 = [A, B]"
    using contents_enq_state [OF i1 l1, of B] c1 by simp
  have l2: "size_q ?q2 < capacity ?q2" using emp cap by (simp add: enq_state_fields)
  have i3: "queue_inv ?q3" by (rule inv_enq_state [OF i2 l2])
  have c3: "contents ?q3 = [A, B, C]"
    using contents_enq_state [OF i2 l2, of C] c2 by simp
  have s3: "size_q ?q3 = 3" using emp by (simp add: enq_state_fields)
  have "\<exists>q'. apply_op d ?q3 (0, Deq x) =
        Some \<lparr> before = ?q3, flag = 0, request = Deq x, outcome = Returned 0,
               delivered = Some (contents ?q3 ! Suc (Suc 0)), after = q' \<rparr> \<and>
      queue_inv q' \<and> capacity q' = capacity ?q3 \<and> size_q q' = size_q ?q3 - 1 \<and>
      contents q' = take (Suc (Suc 0)) (contents ?q3) @ drop (Suc (Suc (Suc 0))) (contents ?q3)"
    by (rule apply_op_deq_at [OF i3]) (simp_all add: c3 All_less_Suc pa pb pc)
  then obtain q4 where
    a4: "apply_op d ?q3 (0, Deq x) =
        Some \<lparr> before = ?q3, flag = 0, request = Deq x, outcome = Returned 0,
               delivered = Some C, after = q4 \<rparr>"
    and i4: "queue_inv q4" and s4: "size_q q4 = 2" and c4: "contents q4 = [A, B]"
    using s3 by (auto simp: c3)
  have "\<exists>q'. apply_op d q4 (0, Deq y) =
        Some \<lparr> before = q4, flag = 0, request = Deq y, outcome = Returned 0,
               delivered = Some (contents q4 ! 0), after = q' \<rparr> \<and>
      queue_inv q' \<and> capacity q' = capacity q4 \<and> size_q q' = size_q q4 - 1 \<and>
      contents q' = take 0 (contents q4) @ drop (Suc 0) (contents q4)"
    by (rule apply_op_deq_at [OF i4]) (simp_all add: c4 All_less_Suc pa pb)
  then obtain q5 where
    a5: "apply_op d q4 (0, Deq y) =
        Some \<lparr> before = q4, flag = 0, request = Deq y, outcome = Returned 0,
               delivered = Some A, after = q5 \<rparr>"
    and i5: "queue_inv q5" and s5: "size_q q5 = 1" and c5: "contents q5 = [B]"
    using s4 by (auto simp: c4)
  have "\<exists>q'. apply_op d q5 (0, Deq z) =
        Some \<lparr> before = q5, flag = 0, request = Deq z, outcome = Returned 0,
               delivered = Some (contents q5 ! 0), after = q' \<rparr> \<and>
      queue_inv q' \<and> capacity q' = capacity q5 \<and> size_q q' = size_q q5 - 1 \<and>
      contents q' = take 0 (contents q5) @ drop (Suc 0) (contents q5)"
    by (rule apply_op_deq_at [OF i5]) (simp_all add: c5)
  then obtain q6 where
    a6: "apply_op d q5 (0, Deq z) =
        Some \<lparr> before = q5, flag = 0, request = Deq z, outcome = Returned 0,
               delivered = Some B, after = q6 \<rparr>"
    and s6: "size_q q6 = 0"
    using s5 by (auto simp: c5)
  have "run_ops d q [(0, Enq A), (0, Enq B), (0, Enq C), (0, Deq x), (0, Deq y), (0, Deq z)] =
    Some [\<lparr> before = q, flag = 0, request = Enq A, outcome = Returned 0,
            delivered = None, after = ?q1 \<rparr>,
          \<lparr> before = ?q1, flag = 0, request = Enq B, outcome = Returned 0,
            delivered = None, after = ?q2 \<rparr>,
          \<lparr> before = ?q2, flag = 0, request = Enq C, outcome = Returned 0,
            delivered = None, after = ?q3 \<rparr>,
          \<lparr> before = ?q3, flag = 0, request = Deq x, outcome = Returned 0,
            delivered = Some C, after = q4 \<rparr>,
          \<lparr> before = q4, flag = 0, request = Deq y, outcome = Returned 0,
            delivered = Some A, after = q5 \<rparr>,
          \<lparr> before = q5, flag = 0, request = Deq z, outcome = Returned 0,
            delivered = Some B, after = q6 \<rparr>]"
    by (simp add: apply_op_enq [OF inv l0] apply_op_enq [OF i1 l1] apply_op_enq [OF i2 l2]
        a4 a5 a6)
  then show ?thesis
    using s6 by (simp add: removed_of_def final_queue_def)
qed

lemma queue_init_3: "queue_init 0 env_ok [] 3 =
    (Some q_empty3, [Cond_not_empty, Cond_not_full, Mutex, Items_array, Queue_struct], [])"
  by (simp add: queue_init_cases env_ok_def q_empty3_def upt_rec)

section \<open>Priority selection with FIFO tie-break\<close>

text \<open>
  Claim C1. For every non-empty queue state, \<open>queue_dequeue\<close> (with \<open>timeout_flag\<close> unset)
  returns the item at a position \<open>p\<close> of the arrival order whose priority is maximal among
  the occupied slots, and every item that arrived before it has a strictly smaller
  priority: among the items of maximal priority it is the earliest-arrived one. The slot
  is the one \<open>find_highest_priority_index\<close> reports. In particular, inserting A (priority
  3), B (priority 3) and C (priority 5) into an empty queue of capacity at least 3 and
  removing three times yields C, A, B.
\<close>

theorem dequeue_selects_max_priority_fifo:
  "(queue_inv q \<and> 0 < size_q q \<longrightarrow>
      (\<exists>p q' out. p < length (contents q) \<and>
         find_highest_priority_index q = Some (slot q (int p)) \<and>
         queue_dequeue d 0 (Some q) (Some old) =
           Some (Returned 0, Some q', Some (contents q ! p), out) \<and>
         (\<forall>j < length (contents q). priority (contents q ! j) \<le> priority (contents q ! p)) \<and>
         (\<forall>j < p. priority (contents q ! j) < priority (contents q ! p)))) \<and>
   (queue_inv q0 \<and> size_q q0 = 0 \<and> 3 \<le> capacity q0 \<and>
    priority A = 3 \<and> priority B = 3 \<and> priority C = 5 \<longrightarrow>
      (\<exists>evs. run_ops d q0 [(0, Enq A), (0, Enq B), (0, Enq C),
                            (0, Deq x), (0, Deq y), (0, Deq z)] = Some evs \<and>
         concat (map removed_of evs) = [C, A, B]))"
proof (intro conjI impI)
  assume a: "queue_inv q \<and> 0 < size_q q"
  then have inv: "queue_inv q" and ne: "0 < size_q q" by simp_all
  from dequeue_abs [OF inv ne, of d old]
  show "\<exists>p q' out. p < length (contents q) \<and>
         find_highest_priority_index q = Some (slot q (int p)) \<and>
         queue_dequeue d 0 (Some q) (Some old) =
           Some (Returned 0, Some q', Some (contents q ! p), out) \<and>
         (\<forall>j < length (contents q). priority (contents q ! j) \<le> priority (contents q ! p)) \<and>
         (\<forall>j < p. priority (contents q ! j) < priority (contents q ! p))"
    by blast
next
  assume "queue_inv q0 \<and> size_q q0 = 0 \<and> 3 \<le> capacity q0 \<and>
    priority A = 3 \<and> priority B = 3 \<and> priority C = 5"
  then have h: "queue_inv q0" "size_q q0 = 0" "3 \<le> capacity q0"
    "priority A = 3" "priority B = 3" "priority C = 5" by simp_all
  from fifo_tie_break_example [OF h, of d x y z]
  show "\<exists>evs. run_ops d q0 [(0, Enq A), (0, Enq B), (0, Enq C),
                            (0, Deq x), (0, Deq y), (0, Deq z)] = Some evs \<and>
         concat (map removed_of evs) = [C, A, B]"
    by blast
qed

theorem dequeue_selects_max_priority_fifo_witness:
  "(queue_inv q_wrapped \<and> 0 < size_q q_wrapped) \<and>
   (\<exists>p q' out. p < length (contents q_wrapped) \<and>
         find_highest_priority_index q_wrapped = Some (slot q_wrapped (int p)) \<and>
         queue_dequeue 0 0 (Some q_wrapped) (Some item_A) =
           Some (Returned 0, Some q', Some (contents q_wrapped ! p), out) \<and>
         (\<forall>j < length (contents q_wrapped).
             priority (contents q_wrapped ! j) \<le> priority (contents q_wrapped ! p)) \<and>
         (\<forall>j < p. priority (contents q_wrapped ! j) < priority (contents q_wrapped ! p))) \<and>
   (queue_inv q_empty3 \<and> size_q q_empty3 = 0 \<and> 3 \<le> capacity q_empty3 \<and>
    priority item_A = 3 \<and> priority item_B = 3 \<and> priority item_C = 5) \<and>
   (\<exists>evs. run_ops 0 q_empty3 [(0, Enq item_A), (0, Enq item_B), (0, Enq item_C),
                            (0, Deq item_A), (0, Deq item_A), (0, Deq item_A)] = Some evs \<and>
         concat (map removed_of evs) = [item_C, item_A, item_B])"
proof -
  have a: "queue_inv q_wrapped \<and> 0 < size_q q_wrapped"
    using q_wrapped_inv by (simp add: q_wrapped_def)
  have b: "queue_inv q_empty3 \<and> size_q q_empty3 = 0 \<and> 3 \<le> capacity q_empty3 \<and>
    priority item_A = 3 \<and> priority item_B = 3 \<and> priority item_C = 5"
    using q_empty3_inv by (simp add: q_empty3_def item_A_def item_B_def item_C_def)
  from dequeue_selects_max_priority_fifo [of q_wrapped 0 item_A q_empty3 item_A item_B item_C
      item_A item_A item_A] a b
  show ?thesis by blast
qed

section \<open>Removal and compaction\<close>

text \<open>
  Claim C2. For every non-empty queue state, let \<open>p\<close> be the position selected by
  \<open>queue_dequeue\<close>. If its slot is the logical head, the head index advances by one
  (modulo the capacity) and tail and array are untouched. Otherwise the head stays, every
  slot from the selected one up to the one before the last occupied slot receives the
  content of its successor, the slots before the selected one keep their content, and
  the tail retreats by one (modulo the capacity). In both cases the count drops by one
  and the remaining items, read from head to tail, are the previous sequence with the
  selected item deleted.
\<close>

theorem dequeue_removal_preserves_order:
  assumes "queue_inv q" and "0 < size_q q"
  shows "\<exists>p q' out.
      p < length (contents q) \<and>
      find_highest_priority_index q = Some (slot q (int p)) \<and>
      queue_dequeue d 0 (Some q) (Some old) =
        Some (Returned 0, Some q', Some (contents q ! p), out) \<and>
      size_q q' = size_q q - 1 \<and>
      (slot q (int p) = head q \<longrightarrow>
         head q' = (head q + 1) mod capacity q \<and> tail q' = tail q \<and> items q' = items q) \<and>
      (slot q (int p) \<noteq> head q \<longrightarrow>
         head q' = head q \<and> tail q' = (tail q - 1 + capacity q) mod capacity q \<and>
         (\<forall>j. int p \<le> j \<and> j < size_q q - 1 \<longrightarrow>
            items q' ! nat (slot q j) = items q ! nat (slot q (j + 1))) \<and>
         (\<forall>j. 0 \<le> j \<and> j < int p \<longrightarrow> items q' ! nat (slot q j) = items q ! nat (slot q j))) \<and>
      contents q' = take p (contents q) @ drop (Suc p) (contents q)"
proof -
  from dequeue_abs [OF assms, of d old] obtain p q' where
    p: "p < length (contents q)"
    and f: "find_highest_priority_index q = Some (slot q (int p))"
    and dq: "queue_dequeue d 0 (Some q) (Some old) =
        Some (Returned 0, Some q', Some (contents q ! p), dbg_deq d (contents q ! p) q')"
    and sz: "size_q q' = size_q q - 1"
    and ct: "contents q' = take p (contents q) @ drop (Suc p) (contents q)"
    and hd0: "p = 0 \<longrightarrow> head q' = (head q + 1) mod capacity q \<and> tail q' = tail q \<and>
                 items q' = items q"
    and mid: "p \<noteq> 0 \<longrightarrow> head q' = head q \<and>
         tail q' = (tail q - 1 + capacity q) mod capacity q \<and>
         (\<forall>j. 0 \<le> j \<and> j < capacity q \<longrightarrow>
            items q' ! nat (slot q j) =
              (if int p \<le> j \<and> j < size_q q - 1 then items q ! nat (slot q (j + 1))
               else items q ! nat (slot q j)))"
    by blast
  have pb: "0 \<le> int p" "int p < size_q q" using p by (simp_all add: length_contents)
  have cap: "size_q q \<le> capacity q" using assms(1) by (simp add: queue_inv_def)
  have iff: "slot q (int p) = head q \<longleftrightarrow> p = 0"
    using slot_head_iff [OF assms(1) pb] by simp
  have shifted: "\<forall>j. int p \<le> j \<and> j < size_q q - 1 \<longrightarrow>
            items q' ! nat (slot q j) = items q ! nat (slot q (j + 1))" if "p \<noteq> 0"
  proof (intro allI impI)
    fix j assume j: "int p \<le> j \<and> j < size_q q - 1"
    then have "0 \<le> j \<and> j < capacity q" using cap by linarith
    with mid that j show "items q' ! nat (slot q j) = items q ! nat (slot q (j + 1))" by simp
  qed
  have kept: "\<forall>j. 0 \<le> j \<and> j < int p \<longrightarrow> items q' ! nat (slot q j) = items q ! nat (slot q j)"
    if "p \<noteq> 0"
  proof (intro allI impI)
    fix j assume j: "0 \<le> j \<and> j < int p"
    then have "0 \<le> j \<and> j < capacity q" using cap pb by linarith
    with mid that j show "items q' ! nat (slot q j) = items q ! nat (slot q j)" by simp
  qed
  show ?thesis
    using p f dq sz ct hd0 mid shifted kept iff
    by (intro exI [of _ p] exI [of _ q'] exI [of _ "dbg_deq d (contents q ! p) q'"]) simp
qed

theorem dequeue_removal_preserves_order_witness:
  "queue_inv q_wrapped \<and> 0 < size_q q_wrapped \<and>
   (\<exists>p q' out.
      p < length (contents q_wrapped) \<and>
      find_highest_priority_index q_wrapped = Some (slot q_wrapped (int p)) \<and>
      queue_dequeue 0 0 (Some q_wrapped) (Some item_A) =
        Some (Returned 0, Some q', Some (contents q_wrapped ! p), out) \<and>
      size_q q' = size_q q_wrapped - 1 \<and>
      (slot q_wrapped (int p) = head q_wrapped \<longrightarrow>
         head q' = (head q_wrapped + 1) mod capacity q_wrapped \<and> tail q' = tail q_wrapped \<and>
         items q' = items q_wrapped) \<and>
      (slot q_wrapped (int p) \<noteq> head q_wrapped \<longrightarrow>
         head q' = head q_wrapped \<and>
         tail q' = (tail q_wrapped - 1 + capacity q_wrapped) mod capacity q_wrapped \<and>
         (\<forall>j. int p \<le> j \<and> j < size_q q_wrapped - 1 \<longrightarrow>
            items q' ! nat (slot q_wrapped j) = items q_wrapped ! nat (slot q_wrapped (j + 1))) \<and>
         (\<forall>j. 0 \<le> j \<and> j < int p \<longrightarrow>
            items q' ! nat (slot q_wrapped j) = items q_wrapped ! nat (slot q_wrapped j))) \<and>
      contents q' = take p (contents q_wrapped) @ drop (Suc p) (contents q_wrapped))"
proof -
  have s: "0 < size_q q_wrapped" by (simp add: q_wrapped_def)
  from dequeue_removal_preserves_order [OF q_wrapped_inv s, of 0 item_A] q_wrapped_inv s
  show ?thesis by blast
qed

section \<open>The capacity invariant\<close>

text \<open>
  Claim C3. Start from a queue that \<open>queue_init\<close> returned for capacity \<open>c\<close> (so
  \<open>0 < c\<close>) and run any sequence of enqueue and dequeue calls, each under any value of
  \<open>timeout_flag\<close>. The run is defined (no undefined behaviour), its events are chained
  from the initial queue, and at every observation point the count is between \<open>0\<close> and \<open>c\<close>.
  A successful enqueue happens only when the count is below \<open>c\<close> and adds one; a
  successful dequeue happens only when the count is positive and removes one; any other
  call leaves the queue unchanged (\<open>count_step\<close>).
\<close>

theorem count_within_capacity:
  assumes "queue_init d0 env live c = (Some q0, live', out0)"
  shows "0 < c \<and> size_q q0 = 0 \<and>
     (\<exists>evs. run_ops d q0 ops = Some evs \<and>
        map before evs @ [final_queue q0 evs] = q0 # map after evs \<and>
        (\<forall>e \<in> set evs. capacity (before e) = c \<and> capacity (after e) = c \<and>
            0 \<le> size_q (after e) \<and> size_q (after e) \<le> c \<and> count_step e))"
proof -
  from queue_init_inv [OF assms] have inv: "queue_inv q0" and c: "capacity q0 = c"
    and s: "size_q q0 = 0" by simp_all
  from run_ops_spec [OF inv, of d ops] obtain evs where
    r: "run_ops d q0 ops = Some evs"
    and ch: "map before evs @ [final_queue q0 evs] = q0 # map after evs"
    and al: "\<forall>e \<in> set evs. queue_inv (before e) \<and> queue_inv (after e) \<and>
          capacity (before e) = capacity q0 \<and> capacity (after e) = capacity q0 \<and> count_step e"
    by blast
  have "\<forall>e \<in> set evs. capacity (before e) = c \<and> capacity (after e) = c \<and>
            0 \<le> size_q (after e) \<and> size_q (after e) \<le> c \<and> count_step e"
  proof
    fix e assume "e \<in> set evs"
    with al have "queue_inv (after e)" "capacity (before e) = c" "capacity (after e) = c"
      "count_step e" using c by simp_all
    then show "capacity (before e) = c \<and> capacity (after e) = c \<and>
            0 \<le> size_q (after e) \<and> size_q (after e) \<le> c \<and> count_step e"
      by (simp add: queue_inv_def)
  qed
  moreover have "0 < c" using inv c by (simp add: queue_inv_def)
  ultimately show ?thesis using r ch s by blast
qed

theorem count_within_capacity_witness:
  "queue_init 0 env_ok [] 3 =
     (Some q_empty3, [Cond_not_empty, Cond_not_full, Mutex, Items_array, Queue_struct], []) \<and>
   (0::int) < 3 \<and> size_q q_empty3 = 0 \<and>
   (\<exists>evs. run_ops 0 q_empty3 [(0, Enq item_A), (0, Deq item_B), (1, Enq item_C)] = Some evs \<and>
        map before evs @ [final_queue q_empty3 evs] = q_empty3 # map after evs \<and>
        (\<forall>e \<in> set evs. capacity (before e) = 3 \<and> capacity (after e) = 3 \<and>
            0 \<le> size_q (after e) \<and> size_q (after e) \<le> 3 \<and> count_step e))"
  using count_within_capacity [OF queue_init_3, of 0 "[(0, Enq item_A), (0, Deq item_B), (1, Enq item_C)]"]
    queue_init_3 by blast

section \<open>No loss, no duplication\<close>

text \<open>
  Claim C4. For any sequence of enqueue and dequeue calls that starts with an empty queue
  and ends with an empty queue, the multiset of items returned by the successful
  dequeues equals the multiset of items passed to the successful enqueues, and there are
  as many of the one as of the other. The statement holds for every sequence of flag
  values, in particular when there is no cancellation.
\<close>

theorem no_loss_no_duplication:
  assumes "queue_inv q0" and "size_q q0 = 0"
  shows "\<exists>evs. run_ops d q0 ops = Some evs \<and>
     (size_q (final_queue q0 evs) = 0 \<longrightarrow>
        mset (concat (map removed_of evs)) = mset (concat (map inserted_of evs)) \<and>
        length (concat (map removed_of evs)) = length (concat (map inserted_of evs)))"
proof -
  from run_ops_spec [OF assms(1), of d ops] obtain evs where
    r: "run_ops d q0 ops = Some evs"
    and m: "mset (contents q0) + mset (concat (map inserted_of evs)) =
        mset (contents (final_queue q0 evs)) + mset (concat (map removed_of evs))"
    by blast
  have "mset (concat (map removed_of evs)) = mset (concat (map inserted_of evs)) \<and>
        length (concat (map removed_of evs)) = length (concat (map inserted_of evs))"
    if "size_q (final_queue q0 evs) = 0"
  proof -
    have e: "mset (concat (map removed_of evs)) = mset (concat (map inserted_of evs))"
      using m contents_empty [OF assms(2)] contents_empty [OF that] by simp
    then have "size (mset (concat (map removed_of evs))) =
               size (mset (concat (map inserted_of evs)))" by simp
    then have "length (concat (map removed_of evs)) = length (concat (map inserted_of evs))"
      by (simp only: size_mset)
    with e show ?thesis by simp
  qed
  with r show ?thesis by blast
qed

theorem no_loss_no_duplication_witness:
  "queue_inv q_empty3 \<and> size_q q_empty3 = 0 \<and>
   (\<exists>evs. run_ops 0 q_empty3 [(0, Enq item_A), (0, Enq item_B), (0, Enq item_C),
                              (0, Deq item_A), (0, Deq item_A), (0, Deq item_A)] = Some evs \<and>
      size_q (final_queue q_empty3 evs) = 0 \<and>
      mset (concat (map removed_of evs)) = mset (concat (map inserted_of evs)) \<and>
      length (concat (map removed_of evs)) = length (concat (map inserted_of evs)))"
proof -
  let ?ops = "[(0, Enq item_A), (0, Enq item_B), (0, Enq item_C),
               (0, Deq item_A), (0, Deq item_A), (0, Deq item_A)]"
  have e: "size_q q_empty3 = 0" and c: "3 \<le> capacity q_empty3" by (simp_all add: q_empty3_def)
  have p: "priority item_A = 3" "priority item_B = 3" "priority item_C = 5"
    by (simp_all add: item_A_def item_B_def item_C_def)
  from fifo_tie_break_example [OF q_empty3_inv e c p, of 0 item_A item_A item_A]
  obtain evs where r: "run_ops 0 q_empty3 ?ops = Some evs"
    and z: "size_q (final_queue q_empty3 evs) = 0" by blast
  from no_loss_no_duplication [OF q_empty3_inv e, of 0 ?ops] r z
  have "mset (concat (map removed_of evs)) = mset (concat (map inserted_of evs)) \<and>
      length (concat (map removed_of evs)) = length (concat (map inserted_of evs))"
    by simp
  with r z q_empty3_inv e show ?thesis by blast
qed

section \<open>Cancellation\<close>

text \<open>
  Claim C5. Whenever \<open>timeout_flag\<close> is set, \<open>queue_enqueue\<close> and \<open>queue_dequeue\<close> return
  \<open>-1\<close> (the Cancelled outcome) instead of waiting, and leave the queue as it was: the
  count, head, tail and stored items are unchanged, the item is not stored (it stays
  with the caller), and the destination cell of a dequeue is not written. This holds
  for every queue state, full, empty or neither.
\<close>

theorem cancelled_calls_fail_fast:
  assumes "timeout_flag \<noteq> 0"
  shows "queue_enqueue d timeout_flag (Some q) it = Some (Returned (- 1), Some q, []) \<and>
         queue_dequeue d timeout_flag (Some q) (Some old) =
           Some (Returned (- 1), Some q, Some old, [])"
  using assms by (simp add: queue_enqueue_def queue_dequeue_def)

theorem cancelled_calls_fail_fast_witness:
  "(1::int) \<noteq> 0 \<and>
   queue_enqueue 0 1 (Some q_wrapped) item_C = Some (Returned (- 1), Some q_wrapped, []) \<and>
   queue_dequeue 0 1 (Some q_wrapped) (Some item_A) =
     Some (Returned (- 1), Some q_wrapped, Some item_A, [])"
  using cancelled_calls_fail_fast [of 1 0 q_wrapped item_C item_A] by simp

section \<open>The capacity bound of the constructor\<close>

text \<open>
  Claim C6, as amended. \<open>queue_init\<close> itself enforces \<open>1 \<le> capacity \<le> 20\<close>: for every
  capacity outside this range construction fails whatever the resources, for every
  capacity inside it construction succeeds when no resource acquisition fails, and
  \<open>validate_arguments\<close> of the orchestration layer accepts a queue size only in the same
  range; it accepts exactly when the queue size is in \<open>1..20\<close> and its other three
  arguments are in their ranges.
\<close>

theorem queue_init_capacity_bound:
  "(c < 1 \<or> 20 < c \<longrightarrow> fst (queue_init d env live c) = None) \<and>
   (1 \<le> c \<and> c \<le> 20 \<and> resources_ok env \<longrightarrow>
      (\<exists>q. fst (queue_init d env live c) = Some q \<and> capacity q = c)) \<and>
   (fst (validate_arguments max_p max_c n_p n_c c t) \<noteq> 0 \<longrightarrow> 1 \<le> c \<and> c \<le> 20) \<and>
   (fst (validate_arguments max_p max_c n_p n_c c t) \<noteq> 0 \<longleftrightarrow>
      1 \<le> n_p \<and> n_p \<le> max_p \<and> 1 \<le> n_c \<and> n_c \<le> max_c \<and> 1 \<le> c \<and> c \<le> 20 \<and> 0 < t)"
proof (intro conjI impI)
  assume "c < 1 \<or> 20 < c"
  then show "fst (queue_init d env live c) = None"
    by (auto simp: queue_init_cases)
next
  assume "1 \<le> c \<and> c \<le> 20 \<and> resources_ok env"
  then show "\<exists>q. fst (queue_init d env live c) = Some q \<and> capacity q = c"
    by (simp add: queue_init_cases resources_ok_def)
next
  assume v: "fst (validate_arguments max_p max_c n_p n_c c t) \<noteq> 0"
  show "1 \<le> c"
    using v by (auto simp: validate_arguments_def split: if_splits)
  show "c \<le> 20"
    using v by (auto simp: validate_arguments_def split: if_splits)
next
  show "fst (validate_arguments max_p max_c n_p n_c c t) \<noteq> 0 \<longleftrightarrow>
      1 \<le> n_p \<and> n_p \<le> max_p \<and> 1 \<le> n_c \<and> n_c \<le> max_c \<and> 1 \<le> c \<and> c \<le> 20 \<and> 0 < t"
    by (auto simp: validate_arguments_def split: if_splits)
qed

text \<open>The claim as stated says that capacity 21 is accepted by the queue; it is rejected
  although every resource is available.\<close>

theorem queue_init_rejects_21:
  "resources_ok env_ok \<and> fst (queue_init 0 env_ok [] 21) = None"
  by (simp add: resources_ok_def env_ok_def queue_init_cases)

theorem queue_init_capacity_bound_witness:
  "((21::int) < 1 \<or> (20::int) < 21) \<and> fst (queue_init 0 env_ok [] 21) = None \<and>
   ((1::int) \<le> 20 \<and> (20::int) \<le> 20 \<and> resources_ok env_ok) \<and>
   (\<exists>q. fst (queue_init 0 env_ok [] 20) = Some q \<and> capacity q = 20) \<and>
   fst (validate_arguments 10 10 3 2 20 30) \<noteq> 0 \<and>
   fst (validate_arguments 10 10 3 2 21 30) = 0"
proof -
  have r: "resources_ok env_ok" by (simp add: resources_ok_def env_ok_def)
  from queue_init_capacity_bound [of 21 0 env_ok "[]" 10 10 3 2 30]
  have a: "fst (queue_init 0 env_ok [] 21) = None"
    and w: "fst (validate_arguments 10 10 3 2 21 30) = 0" by simp_all
  from queue_init_capacity_bound [of 20 0 env_ok "[]" 10 10 3 2 30] r
  have b: "\<exists>q. fst (queue_init 0 env_ok [] 20) = Some q \<and> capacity q = 20"
    and v: "fst (validate_arguments 10 10 3 2 20 30) \<noteq> 0" by simp_all
  from a b r v w show ?thesis by simp
qed

section \<open>Construction failures\<close>

text \<open>
  Claim C7. \<open>queue_init\<close> returns \<open>NULL\<close> exactly when the capacity is at most 0, or
  exceeds the maximum of 20, or one of the resource acquisitions (two allocations,
  the mutex, two condition variables) fails. On every such failure the resources
  acquired so far have been released (the live resources are what they were before
  the call), and a queue that is returned is fully initialised: all five resources
  are live, the array has \<open>capacity\<close> slots, and count, head and tail are 0.
\<close>

theorem queue_init_failure:
  "(fst (queue_init d env live c) = None \<longleftrightarrow> c \<le> 0 \<or> c > 20 \<or> \<not> resources_ok env) \<and>
   (fst (queue_init d env live c) = None \<longrightarrow> fst (snd (queue_init d env live c)) = live) \<and>
   (\<forall>q. fst (queue_init d env live c) = Some q \<longrightarrow>
      fst (snd (queue_init d env live c)) =
        [Cond_not_empty, Cond_not_full, Mutex, Items_array, Queue_struct] @ live \<and>
      capacity q = c \<and> size_q q = 0 \<and> head q = 0 \<and> tail q = 0 \<and>
      length (items q) = nat c \<and> queue_inv q)"
proof (intro conjI allI impI)
  show "fst (queue_init d env live c) = None \<longleftrightarrow> c \<le> 0 \<or> c > 20 \<or> \<not> resources_ok env"
    by (simp add: queue_init_cases resources_ok_def)
next
  assume "fst (queue_init d env live c) = None"
  then show "fst (snd (queue_init d env live c)) = live"
    by (simp add: queue_init_cases split: if_splits)
next
  fix q assume ok: "fst (queue_init d env live c) = Some q"
  then have q: "q = \<lparr> items = map (fresh_slot env) [0 ..< nat c],
                      capacity = c, size_q = 0, head = 0, tail = 0 \<rparr>"
    and c: "0 < c" "c \<le> 20"
    by (simp_all add: queue_init_cases split: if_splits)
  show "fst (snd (queue_init d env live c)) =
        [Cond_not_empty, Cond_not_full, Mutex, Items_array, Queue_struct] @ live"
    using ok by (simp add: queue_init_cases split: if_splits)
  show "capacity q = c" "size_q q = 0" "head q = 0" "tail q = 0" "length (items q) = nat c"
    by (simp_all add: q)
  show "queue_inv q" using c by (simp add: q queue_inv_def)
qed

theorem queue_init_failure_witness:
  "fst (queue_init 0 (env_ok\<lparr> mutex_init_rc := 22 \<rparr>) [] 5) = None \<and>
   fst (snd (queue_init 0 (env_ok\<lparr> mutex_init_rc := 22 \<rparr>) [] 5)) = [] \<and>
   (\<exists>q. fst (queue_init 0 env_ok [] 5) = Some q \<and>
      fst (snd (queue_init 0 env_ok [] 5)) =
        [Cond_not_empty, Cond_not_full, Mutex, Items_array, Queue_struct] \<and>
      capacity q = 5 \<and> size_q q = 0 \<and> head q = 0 \<and> tail q = 0 \<and>
      length (items q) = 5 \<and> queue_inv q)"
proof -
  have bad: "\<not> resources_ok (env_ok\<lparr> mutex_init_rc := 22 \<rparr>)"
    by (simp add: resources_ok_def env_ok_def)
  have good: "\<not> ((5::int) \<le> 0 \<or> (5::int) > 20 \<or> \<not> resources_ok env_ok)"
    by (simp add: resources_ok_def env_ok_def)
  from queue_init_failure [of 0 "env_ok\<lparr> mutex_init_rc := 22 \<rparr>" "[]" 5] bad
  have a: "fst (queue_init 0 (env_ok\<lparr> mutex_init_rc := 22 \<rparr>) [] 5) = None"
    "fst (snd (queue_init 0 (env_ok\<lparr> mutex_init_rc := 22 \<rparr>) [] 5)) = []"
    by blast+
  from queue_init_failure [of 0 env_ok "[]" 5] good
  have ne: "fst (queue_init 0 env_ok [] 5) \<noteq> None" by blast
  then obtain q where q: "fst (queue_init 0 env_ok [] 5) = Some q" by blast
  with queue_init_failure [of 0 env_ok "[]" 5]
  have "fst (snd (queue_init 0 env_ok [] 5)) =
        [Cond_not_empty, Cond_not_full, Mutex, Items_array, Queue_struct] \<and>
      capacity q = 5 \<and> size_q q = 0 \<and> head q = 0 \<and> tail q = 0 \<and>
      length (items q) = 5 \<and> queue_inv q"
    by simp
  with a q show ?thesis by blast
qed

section \<open>What the queue prints\<close>

text \<open>
  Claim C8, as amended. The operations of the queue print exactly the following and
  nothing else. \<open>queue_init\<close> writes exactly one error line to \<open>stderr\<close> whenever it
  fails, naming the first cause of the failure (invalid capacity, either allocation,
  the mutex, either condition variable); when it succeeds it prints one trace line to
  \<open>stdout\<close> if \<open>DEBUG_MODE\<close> is on and nothing otherwise. \<open>queue_enqueue\<close> and
  \<open>queue_dequeue\<close> write exactly one error line to \<open>stderr\<close> when they are passed a
  \<open>NULL\<close> pointer; on valid pointers they print one trace line to \<open>stdout\<close> (value,
  priority and producer of the item, the new size and the capacity) when they succeed
  and \<open>DEBUG_MODE\<close> is on, and nothing when they wait, are cancelled, or \<open>DEBUG_MODE\<close> is
  off. \<open>queue_get_size\<close> prints nothing. \<open>queue_destroy\<close> of a queue prints two trace
  lines to \<open>stdout\<close> when \<open>DEBUG_MODE\<close> is on and nothing otherwise.
\<close>

theorem queue_output_characterised:
  "(fst (queue_init d env live c) = None \<longrightarrow>
      snd (snd (queue_init d env live c)) =
        [if c \<le> 0 \<or> c > 20 then Err_invalid_capacity c
         else if \<not> malloc_queue_ok env then Err_alloc_queue
         else if \<not> malloc_items_ok env then Err_alloc_items
         else if mutex_init_rc env \<noteq> 0 then Err_mutex_init
         else if cond_not_full_rc env \<noteq> 0 then Err_cond_not_full
         else Err_cond_not_empty] \<and>
      map stream_of (snd (snd (queue_init d env live c))) = [Stderr]) \<and>
   (fst (queue_init d env live c) \<noteq> None \<longrightarrow>
      snd (snd (queue_init d env live c)) = (if d \<noteq> 0 then [Dbg_initialized c] else []) \<and>
      map stream_of (snd (snd (queue_init d env live c))) = (if d \<noteq> 0 then [Stdout] else [])) \<and>
   (\<forall>st q' out. queue_enqueue d f qp it = Some (st, q', out) \<longrightarrow>
      (qp = None \<longrightarrow> out = [Err_enqueue_null] \<and> map stream_of out = [Stderr]) \<and>
      (qp \<noteq> None \<and> st = Returned 0 \<and> d \<noteq> 0 \<longrightarrow>
         (\<exists>q1. q' = Some q1 \<and>
            out = [Dbg_enqueued (value_i it) (priority it) (producer_id it)
                     (size_q q1) (capacity q1)]) \<and>
         map stream_of out = [Stdout]) \<and>
      (qp \<noteq> None \<and> (st \<noteq> Returned 0 \<or> d = 0) \<longrightarrow> out = [])) \<and>
   (\<forall>st q' cell out. queue_dequeue d f qp ip = Some (st, q', cell, out) \<longrightarrow>
      (qp = None \<or> ip = None \<longrightarrow> out = [Err_dequeue_null] \<and> map stream_of out = [Stderr]) \<and>
      (qp \<noteq> None \<and> ip \<noteq> None \<and> st = Returned 0 \<and> d \<noteq> 0 \<longrightarrow>
         (\<exists>q1 got. q' = Some q1 \<and> cell = Some got \<and>
            out = [Dbg_dequeued (value_i got) (priority got) (producer_id got)
                     (size_q q1) (capacity q1)]) \<and>
         map stream_of out = [Stdout]) \<and>
      (qp \<noteq> None \<and> ip \<noteq> None \<and> (st \<noteq> Returned 0 \<or> d = 0) \<longrightarrow> out = [])) \<and>
   snd (queue_get_size q) = [] \<and>
   snd (queue_destroy d qp live) =
     (if qp \<noteq> None \<and> d \<noteq> 0 then [Dbg_destroying, Dbg_released] else []) \<and>
   map stream_of (snd (queue_destroy d qp live)) =
     (if qp \<noteq> None \<and> d \<noteq> 0 then [Stdout, Stdout] else [])"
proof -
  have i1: "fst (queue_init d env live c) = None \<longrightarrow>
      snd (snd (queue_init d env live c)) =
        [if c \<le> 0 \<or> c > 20 then Err_invalid_capacity c
         else if \<not> malloc_queue_ok env then Err_alloc_queue
         else if \<not> malloc_items_ok env then Err_alloc_items
         else if mutex_init_rc env \<noteq> 0 then Err_mutex_init
         else if cond_not_full_rc env \<noteq> 0 then Err_cond_not_full
         else Err_cond_not_empty] \<and>
      map stream_of (snd (snd (queue_init d env live c))) = [Stderr]"
    by (simp add: queue_init_cases)
  have i2: "fst (queue_init d env live c) \<noteq> None \<longrightarrow>
      snd (snd (queue_init d env live c)) = (if d \<noteq> 0 then [Dbg_initialized c] else []) \<and>
      map stream_of (snd (snd (queue_init d env live c))) = (if d \<noteq> 0 then [Stdout] else [])"
    by (simp add: queue_init_cases)
  have e: "\<forall>st q' out. queue_enqueue d f qp it = Some (st, q', out) \<longrightarrow>
      (qp = None \<longrightarrow> out = [Err_enqueue_null] \<and> map stream_of out = [Stderr]) \<and>
      (qp \<noteq> None \<and> st = Returned 0 \<and> d \<noteq> 0 \<longrightarrow>
         (\<exists>q1. q' = Some q1 \<and>
            out = [Dbg_enqueued (value_i it) (priority it) (producer_id it)
                     (size_q q1) (capacity q1)]) \<and>
         map stream_of out = [Stdout]) \<and>
      (qp \<noteq> None \<and> (st \<noteq> Returned 0 \<or> d = 0) \<longrightarrow> out = [])"
    by (auto simp: queue_enqueue_def Let_def split: option.splits if_splits)
  have dq: "\<forall>st q' cell out. queue_dequeue d f qp ip = Some (st, q', cell, out) \<longrightarrow>
      (qp = None \<or> ip = None \<longrightarrow> out = [Err_dequeue_null] \<and> map stream_of out = [Stderr]) \<and>
      (qp \<noteq> None \<and> ip \<noteq> None \<and> st = Returned 0 \<and> d \<noteq> 0 \<longrightarrow>
         (\<exists>q1 got. q' = Some q1 \<and> cell = Some got \<and>
            out = [Dbg_dequeued (value_i got) (priority got) (producer_id got)
                     (size_q q1) (capacity q1)]) \<and>
         map stream_of out = [Stdout]) \<and>
      (qp \<noteq> None \<and> ip \<noteq> None \<and> (st \<noteq> Returned 0 \<or> d = 0) \<longrightarrow> out = [])"
    by (auto simp: queue_dequeue_def split: option.splits if_splits)
  have g: "snd (queue_get_size q) = []" by (simp add: queue_get_size_def)
  have ds: "snd (queue_destroy d qp live) =
     (if qp \<noteq> None \<and> d \<noteq> 0 then [Dbg_destroying, Dbg_released] else [])"
    by (simp add: queue_destroy_def split: option.splits)
  have ds2: "map stream_of (snd (queue_destroy d qp live)) =
     (if qp \<noteq> None \<and> d \<noteq> 0 then [Stdout, Stdout] else [])"
    by (simp add: ds)
  from i1 i2 e dq g ds ds2 show ?thesis by blast
qed

text \<open>The claim as stated says that nothing is ever printed; a rejected capacity is
  reported on \<open>stderr\<close>.\<close>

theorem queue_init_prints_on_failure:
  "snd (snd (queue_init 0 env_ok [] 0)) = [Err_invalid_capacity 0]"
  by (simp add: queue_init_cases)

theorem queue_output_characterised_witness:
  "snd (snd (queue_init 0 env_ok [] 0)) = [Err_invalid_capacity 0] \<and>
   map stream_of (snd (snd (queue_init 0 env_ok [] 0))) = [Stderr] \<and>
   snd (snd (queue_init 1 env_ok [] 5)) = [Dbg_initialized 5] \<and>
   (\<exists>st q'. queue_enqueue 0 0 None item_A = Some (st, q', [Err_enqueue_null])) \<and>
   (\<exists>st q'. queue_enqueue 1 0 (Some q_empty3) item_A =
       Some (st, q', [Dbg_enqueued 1 3 1 1 3])) \<and>
   (\<exists>st q' cell. queue_dequeue 1 0 (Some q_wrapped) (Some item_A) =
       Some (st, q', cell, [Dbg_dequeued 3 5 1 2 3])) \<and>
   (\<exists>st q' cell. queue_dequeue 1 1 (Some q_wrapped) (Some item_A) =
       Some (st, q', cell, [])) \<and>
   snd (queue_destroy 1 (Some q_empty3) []) = [Dbg_destroying, Dbg_released]"
proof -
  note T0 = queue_output_characterised [of 0 env_ok "[]" 0 0 None item_A "Some item_A" q_wrapped]
  note T1 = queue_output_characterised [of 1 env_ok "[]" 5 0 "Some q_empty3" item_A "Some item_A" q_wrapped]
  note T2 = queue_output_characterised [of 1 env_ok "[]" 5 0 "Some q_wrapped" item_A "Some item_A" q_wrapped]
  note T3 = queue_output_characterised [of 1 env_ok "[]" 5 1 "Some q_wrapped" item_A "Some item_A" q_wrapped]
  have f0: "fst (queue_init 0 env_ok [] 0) = None" by (simp add: queue_init_cases)
  from T0 f0 have a: "snd (snd (queue_init 0 env_ok [] 0)) = [Err_invalid_capacity 0]"
    "map stream_of (snd (snd (queue_init 0 env_ok [] 0))) = [Stderr]"
    by simp_all
  have f1: "fst (queue_init 1 env_ok [] 5) \<noteq> None"
    by (simp add: queue_init_cases env_ok_def)
  from T1 f1 have b: "snd (snd (queue_init 1 env_ok [] 5)) = [Dbg_initialized 5]" by simp
  have "queue_enqueue 0 0 None item_A = Some (Returned (- 1), None, [Err_enqueue_null])"
    by (simp add: queue_enqueue_def)
  then have c: "\<exists>st q'. queue_enqueue 0 0 None item_A = Some (st, q', [Err_enqueue_null])"
    by blast
  have e1: "queue_enqueue 1 0 (Some q_empty3) item_A =
      Some (Returned 0, Some (enq_state q_empty3 item_A),
            dbg_enq 1 item_A (enq_state q_empty3 item_A))"
    by (simp add: enqueue_cases [OF q_empty3_inv]) (simp add: q_empty3_def)
  with T1 have "dbg_enq 1 item_A (enq_state q_empty3 item_A) =
      [Dbg_enqueued (value_i item_A) (priority item_A) (producer_id item_A)
         (size_q (enq_state q_empty3 item_A)) (capacity (enq_state q_empty3 item_A))]"
    by simp
  then have "dbg_enq 1 item_A (enq_state q_empty3 item_A) = [Dbg_enqueued 1 3 1 1 3]"
    by (simp add: enq_state_fields q_empty3_def item_A_def)
  with e1 have d: "\<exists>st q'. queue_enqueue 1 0 (Some q_empty3) item_A =
       Some (st, q', [Dbg_enqueued 1 3 1 1 3])" by simp
  have "\<exists>q'. queue_dequeue 1 0 (Some q_wrapped) (Some item_A) =
        Some (Returned 0, Some q', Some (contents q_wrapped ! Suc (Suc 0)),
              dbg_deq 1 (contents q_wrapped ! Suc (Suc 0)) q') \<and>
      queue_inv q' \<and> capacity q' = capacity q_wrapped \<and> size_q q' = size_q q_wrapped - 1 \<and>
      contents q' = take (Suc (Suc 0)) (contents q_wrapped) @
                    drop (Suc (Suc (Suc 0))) (contents q_wrapped)"
    by (rule dequeue_at [OF q_wrapped_inv])
       (simp_all add: contents_q_wrapped All_less_Suc item_A_def item_B_def item_C_def)
  then obtain q1 where
    dq: "queue_dequeue 1 0 (Some q_wrapped) (Some item_A) =
        Some (Returned 0, Some q1, Some item_C, dbg_deq 1 item_C q1)"
    and q1': "capacity q1 = capacity q_wrapped" "size_q q1 = size_q q_wrapped - 1"
    by (auto simp: contents_q_wrapped)
  have q1: "capacity q1 = 3" "size_q q1 = 2"
    using q1' by (simp_all add: q_wrapped_def)
  from T2 dq have "dbg_deq 1 item_C q1 =
      [Dbg_dequeued (value_i item_C) (priority item_C) (producer_id item_C)
         (size_q q1) (capacity q1)]"
    by simp
  then have "dbg_deq 1 item_C q1 = [Dbg_dequeued 3 5 1 2 3]"
    by (simp add: q1 item_C_def)
  with dq have e: "\<exists>st q' cell. queue_dequeue 1 0 (Some q_wrapped) (Some item_A) =
       Some (st, q', cell, [Dbg_dequeued 3 5 1 2 3])" by simp
  have c1: "queue_dequeue 1 1 (Some q_wrapped) (Some item_A) =
      Some (Returned (- 1), Some q_wrapped, Some item_A, [])"
    by (simp add: dequeue_not_ready)
  then have f: "\<exists>st q' cell. queue_dequeue 1 1 (Some q_wrapped) (Some item_A) =
       Some (st, q', cell, [])" by blast
  from T1 have g: "snd (queue_destroy 1 (Some q_empty3) []) = [Dbg_destroying, Dbg_released]"
    by simp
  from a b c d e f g show ?thesis by blast
qed

section \<open>The ring-buffer invariant\<close>

text \<open>
  Claim C9. From a state that satisfies the queue invariant, every call of
  \<open>queue_enqueue\<close> and of \<open>queue_dequeue\<close> (under any flag value) is defined and leaves a
  state in which head and tail are indices in \<open>[0, capacity)\<close>, the tail equals
  \<open>(head + size) mod capacity\<close>, the whole invariant holds again, and the \<open>size\<close> occupied
  slots \<open>head, head + 1, ..., head + size - 1\<close> (modulo the capacity) are pairwise
  different indices.
\<close>

theorem ring_invariant_preserved:
  assumes "queue_inv q"
  shows "(\<exists>st q' out. queue_enqueue d f (Some q) it = Some (st, Some q', out) \<and>
            capacity q' = capacity q \<and>
            0 \<le> head q' \<and> head q' < capacity q' \<and> 0 \<le> tail q' \<and> tail q' < capacity q' \<and>
            tail q' = (head q' + size_q q') mod capacity q' \<and> queue_inv q' \<and>
            distinct (map (\<lambda>k. slot q' (int k)) [0 ..< nat (size_q q')])) \<and>
         (\<exists>st q' cell out. queue_dequeue d f (Some q) (Some old) = Some (st, Some q', cell, out) \<and>
            capacity q' = capacity q \<and>
            0 \<le> head q' \<and> head q' < capacity q' \<and> 0 \<le> tail q' \<and> tail q' < capacity q' \<and>
            tail q' = (head q' + size_q q') mod capacity q' \<and> queue_inv q' \<and>
            distinct (map (\<lambda>k. slot q' (int k)) [0 ..< nat (size_q q')]))"
proof -
  have ring: "capacity q' = capacity q \<Longrightarrow> queue_inv q' \<Longrightarrow>
      capacity q' = capacity q \<and>
      0 \<le> head q' \<and> head q' < capacity q' \<and> 0 \<le> tail q' \<and> tail q' < capacity q' \<and>
      tail q' = (head q' + size_q q') mod capacity q' \<and> queue_inv q' \<and>
      distinct (map (\<lambda>k. slot q' (int k)) [0 ..< nat (size_q q')])" for q'
    using occupied_distinct [of q'] by (simp add: queue_inv_def)
  have "\<exists>st q' out. queue_enqueue d f (Some q) it = Some (st, Some q', out) \<and>
          capacity q' = capacity q \<and> queue_inv q'"
  proof (cases "f = 0 \<and> size_q q \<noteq> capacity q")
    case True
    then have lt: "size_q q < capacity q" using assms by (simp add: queue_inv_def)
    show ?thesis
      using True inv_enq_state [OF assms lt, of it]
      by (simp add: enqueue_cases [OF assms] enq_state_fields)
  next
    case False
    then show ?thesis using assms by (auto simp: enqueue_cases [OF assms])
  qed
  then have A: "\<exists>st q' out. queue_enqueue d f (Some q) it = Some (st, Some q', out) \<and>
            capacity q' = capacity q \<and>
            0 \<le> head q' \<and> head q' < capacity q' \<and> 0 \<le> tail q' \<and> tail q' < capacity q' \<and>
            tail q' = (head q' + size_q q') mod capacity q' \<and> queue_inv q' \<and>
            distinct (map (\<lambda>k. slot q' (int k)) [0 ..< nat (size_q q')])"
    using ring by blast
  have "\<exists>st q' cell out. queue_dequeue d f (Some q) (Some old) = Some (st, Some q', cell, out) \<and>
          capacity q' = capacity q \<and> queue_inv q'"
  proof (cases "f \<noteq> 0 \<or> size_q q = 0")
    case True
    from dequeue_not_ready [OF this, of d old] show ?thesis using assms by auto
  next
    case False
    then have ne: "0 < size_q q" and f: "f = 0" using assms by (simp_all add: queue_inv_def)
    from dequeue_abs [OF assms ne, of d old] show ?thesis unfolding f by blast
  qed
  then have B: "\<exists>st q' cell out.
            queue_dequeue d f (Some q) (Some old) = Some (st, Some q', cell, out) \<and>
            capacity q' = capacity q \<and>
            0 \<le> head q' \<and> head q' < capacity q' \<and> 0 \<le> tail q' \<and> tail q' < capacity q' \<and>
            tail q' = (head q' + size_q q') mod capacity q' \<and> queue_inv q' \<and>
            distinct (map (\<lambda>k. slot q' (int k)) [0 ..< nat (size_q q')])"
    using ring by blast
  from A B show ?thesis by blast
qed

theorem ring_invariant_preserved_witness:
  "queue_inv q_wrapped \<and>
   (\<exists>st q' out. queue_enqueue 0 0 (Some q_wrapped) item_C = Some (st, Some q', out) \<and>
            capacity q' = capacity q_wrapped \<and>
            0 \<le> head q' \<and> head q' < capacity q' \<and> 0 \<le> tail q' \<and> tail q' < capacity q' \<and>
            tail q' = (head q' + size_q q') mod capacity q' \<and> queue_inv q' \<and>
            distinct (map (\<lambda>k. slot q' (int k)) [0 ..< nat (size_q q')])) \<and>
   (\<exists>st q' cell out. queue_dequeue 0 0 (Some q_wrapped) (Some item_A) =
              Some (st, Some q', cell, out) \<and>
            capacity q' = capacity q_wrapped \<and>
            0 \<le> head q' \<and> head q' < capacity q' \<and> 0 \<le> tail q' \<and> tail q' < capacity q' \<and>
            tail q' = (head q' + size_q q') mod capacity q' \<and> queue_inv q' \<and>
            distinct (map (\<lambda>k. slot q' (int k)) [0 ..< nat (size_q q')]))"
  using ring_invariant_preserved [OF q_wrapped_inv, of 0 0 item_C item_A] q_wrapped_inv
  by blast

section \<open>The defensive branch of dequeue\<close>

text \<open>
  Claim C10. In \<open>queue_dequeue\<close>, once the wait loop has exited with \<open>timeout_flag\<close>
  unset, the queue holds at least one item, so \<open>find_highest_priority_index\<close> returns
  the index of an occupied slot, never \<open>-1\<close>, and the call returns 0: the defensive
  branch, which would return \<open>-1\<close>, is not taken.
\<close>

theorem dequeue_defensive_branch_unreachable:
  assumes "queue_inv q" and "\<not> (queue_is_empty q \<and> timeout_flag = 0)" and "timeout_flag = 0"
  shows "1 \<le> size_q q \<and>
     (\<exists>k. 0 \<le> k \<and> k < size_q q \<and> find_highest_priority_index q = Some (slot q k) \<and>
          slot q k \<noteq> - 1 \<and> 0 \<le> slot q k \<and> slot q k < capacity q) \<and>
     (\<exists>q' it out. queue_dequeue d timeout_flag (Some q) (Some old) =
          Some (Returned 0, Some q', Some it, out))"
proof -
  have ne: "0 < size_q q"
    using assms by (simp add: queue_is_empty_def queue_inv_def)
  have cap: "0 < capacity q" using assms(1) by (simp add: queue_inv_def)
  from dequeue_spec [OF assms(1) ne, of d old] obtain p q' where
    p: "0 \<le> p" "p < size_q q"
    and f: "find_highest_priority_index q = Some (slot q p)"
    and dq: "queue_dequeue d 0 (Some q) (Some old) =
        Some (Returned 0, Some q', Some (items q ! nat (slot q p)),
              dbg_deq d (items q ! nat (slot q p)) q')"
    by blast
  have "slot q p \<noteq> - 1 \<and> 0 \<le> slot q p \<and> slot q p < capacity q"
    using slot_bounds [OF cap, of p] by simp
  with p f have "\<exists>k. 0 \<le> k \<and> k < size_q q \<and> find_highest_priority_index q = Some (slot q k) \<and>
          slot q k \<noteq> - 1 \<and> 0 \<le> slot q k \<and> slot q k < capacity q"
    by blast
  moreover have "\<exists>q' it out. queue_dequeue d timeout_flag (Some q) (Some old) =
          Some (Returned 0, Some q', Some it, out)"
    using dq assms(3) by blast
  ultimately show ?thesis using ne by simp
qed

theorem dequeue_defensive_branch_unreachable_witness:
  "queue_inv q_wrapped \<and> \<not> (queue_is_empty q_wrapped \<and> (0::int) = 0) \<and>
   1 \<le> size_q q_wrapped \<and>
     (\<exists>k. 0 \<le> k \<and> k < size_q q_wrapped \<and>
          find_highest_priority_index q_wrapped = Some (slot q_wrapped k) \<and>
          slot q_wrapped k \<noteq> - 1 \<and> 0 \<le> slot q_wrapped k \<and>
          slot q_wrapped k < capacity q_wrapped) \<and>
     (\<exists>q' it out. queue_dequeue 0 0 (Some q_wrapped) (Some item_A) =
          Some (Returned 0, Some q', Some it, out))"
proof -
  have e: "\<not> (queue_is_empty q_wrapped \<and> (0::int) = 0)"
    by (simp add: queue_is_empty_def q_wrapped_def)
  from dequeue_defensive_branch_unreachable [OF q_wrapped_inv e refl, of 0 item_A]
  show ?thesis using q_wrapped_inv e by blast
qed

end
